theory Spec2Isabelle
  imports Complex_Main "HOL-Library.Char_ord" "HOL-Library.List_Lexorder"
begin

section \<open>Python values shared by the modules\<close>

text \<open>
  Exceptions are values: every operation of the source that can raise returns a sum,
  with \<open>Inl\<close> for the exception.  Python strings are modelled as \<open>string\<close>: a
  character stands for a code point below 256, and the character classes below are
  those of Python on that range.
\<close>

datatype py_error = IndexError | KeyError | ZeroDivisionError | UnboundLocalError | AttributeError

text \<open>\<^verbatim>\<open>sep.join(parts)\<close>\<close>

fun join :: "string \<Rightarrow> string list \<Rightarrow> string" where
  "join sep [] = []"
| "join sep [x] = x"
| "join sep (x # y # ys) = x @ sep @ join sep (y # ys)"

text \<open>\<^verbatim>\<open>str(n)\<close> for an integer: decimal digits, with a minus sign when negative.\<close>

definition digit_char :: "nat \<Rightarrow> char" where
  "digit_char d = ''0123456789abcdef'' ! (d mod 16)"

function str_nat :: "nat \<Rightarrow> string" where
  "str_nat n = (if n < 10 then [digit_char n] else str_nat (n div 10) @ [digit_char (n mod 10)])"
  by pat_completeness auto
termination
  by (relation "measure id") auto

declare str_nat.simps [simp del]

definition str_int :: "int \<Rightarrow> string" where
  "str_int i = (if i < 0 then ''-'' @ str_nat (nat (- i)) else str_nat (nat i))"

section \<open>text2cypher\_cache.py\<close>

subsection \<open>\<^verbatim>\<open>json.dumps(schema, sort_keys=True)\<close>\<close>

text \<open>
  The values \<^verbatim>\<open>json.dumps\<close> accepts, without floats.  A \<^verbatim>\<open>dict\<close> keeps its
  insertion order, so an object is an association list; its keys are strings and, in a
  well-formed dictionary, distinct.
\<close>

datatype json =
    JNull
  | JBool bool
  | JInt int
  | JStr string
  | JArr "json list"
  | JObj "(string \<times> json) list"

text \<open>
  String encoding with \<^verbatim>\<open>ensure_ascii=True\<close>: the quote and the backslash are
  escaped, every character outside \<^verbatim>\<open>' '..'~'\<close> becomes a short escape or
  \<^verbatim>\<open>\u00xx\<close>.
\<close>

definition escape_char :: "char \<Rightarrow> string" where
  "escape_char c =
     (if c = CHR ''\"'' then [CHR 0x5C, CHR ''\"'']
      else if c = CHR 0x5C then [CHR 0x5C, CHR 0x5C]
      else if c = CHR 0x0A then [CHR 0x5C, CHR ''n'']
      else if c = CHR 0x0D then [CHR 0x5C, CHR ''r'']
      else if c = CHR 0x09 then [CHR 0x5C, CHR ''t'']
      else if c = CHR 0x08 then [CHR 0x5C, CHR ''b'']
      else if c = CHR 0x0C then [CHR 0x5C, CHR ''f'']
      else if (32::nat) \<le> of_char c \<and> of_char c \<le> (126::nat) then [c]
      else [CHR 0x5C, CHR ''u'', CHR ''0'', CHR ''0'',
            digit_char (of_char c div 16), digit_char (of_char c mod 16)])"

definition encode_basestring_ascii :: "string \<Rightarrow> string" where
  "encode_basestring_ascii s = [CHR ''\"''] @ concat (map escape_char s) @ [CHR ''\"'']"

function dumps :: "json \<Rightarrow> string" where
  "dumps JNull = ''null''"
| "dumps (JBool b) = (if b then ''true'' else ''false'')"
| "dumps (JInt i) = str_int i"
| "dumps (JStr s) = encode_basestring_ascii s"
| "dumps (JArr xs) = ''['' @ join '', '' (map dumps xs) @ '']''"
| "dumps (JObj kvs) =
     ''{'' @ join '', ''
        (map (\<lambda>kv. encode_basestring_ascii (fst kv) @ '': '' @ dumps (snd kv))
             (sort_key fst kvs)) @ ''}''"
  by pat_completeness auto
termination
proof (relation "measure size")
  fix kvs :: "(string \<times> json) list" and kv
  assume "kv \<in> set (sort_key fst kvs)"
  then have "kv \<in> set kvs" by simp
  then have "Suc (size_prod (\<lambda>_. 0) size kv) \<le> Suc (size_list (size_prod (\<lambda>_. 0) size) kvs)"
    by (simp add: size_list_estimation')
  moreover have "size (snd kv) < Suc (size_prod (\<lambda>_. 0) size kv)"
    by (cases kv) simp
  ultimately have "size (snd kv) < Suc (size_list (size_prod (\<lambda>_. 0) size) kvs)"
    by simp
  then show "(snd kv, JObj kvs) \<in> measure size" by simp
next
  fix xs :: "json list" and x
  assume "x \<in> set xs"
  then have "size x < Suc (size_list size xs)"
    by (induction xs) auto
  then show "(x, JArr xs) \<in> measure size" by simp
qed simp

subsection \<open>The cache\<close>

text \<open>
  \<^verbatim>\<open>hashlib.sha256(s.encode()).hexdigest()\<close> is a library function: the model takes
  it as the parameter \<open>H\<close>.
\<close>

type_synonym digest = "string \<Rightarrow> string"

definition generate_key :: "digest \<Rightarrow> string \<Rightarrow> json \<Rightarrow> string" where
  "generate_key H question schema =
     (let question_hash = take 16 (H question);
          schema_str = dumps schema;
          schema_hash = take 16 (H schema_str)
      in question_hash @ ''_'' @ schema_hash)"

text \<open>
  \<^verbatim>\<open>OrderedDict\<close>: an association list with distinct keys, oldest entry first.
\<close>

type_synonym 'v ordered_dict = "(string \<times> 'v) list"

definition od_contains :: "string \<Rightarrow> 'v ordered_dict \<Rightarrow> bool" where
  "od_contains k d = (k \<in> set (map fst d))"

definition od_getitem :: "string \<Rightarrow> 'v ordered_dict \<Rightarrow> py_error + 'v" where
  "od_getitem k d = (case map_of d k of None \<Rightarrow> Inl KeyError | Some v \<Rightarrow> Inr v)"

definition move_to_end :: "string \<Rightarrow> 'v ordered_dict \<Rightarrow> py_error + 'v ordered_dict" where
  "move_to_end k d =
     (case map_of d k of
        None \<Rightarrow> Inl KeyError
      | Some v \<Rightarrow> Inr (filter (\<lambda>kv. fst kv \<noteq> k) d @ [(k, v)]))"

definition od_setitem :: "string \<Rightarrow> 'v \<Rightarrow> 'v ordered_dict \<Rightarrow> 'v ordered_dict" where
  "od_setitem k v d =
     (if od_contains k d then map (\<lambda>kv. if fst kv = k then (k, v) else kv) d
      else d @ [(k, v)])"

definition popitem_first :: "'v ordered_dict \<Rightarrow> py_error + ((string \<times> 'v) \<times> 'v ordered_dict)" where
  "popitem_first d = (case d of [] \<Rightarrow> Inl KeyError | kv # rest \<Rightarrow> Inr (kv, rest))"

record 'v text2cypher_cache =
  max_size :: int
  cache :: "'v ordered_dict"
  hits :: int
  misses :: int

definition init_cache :: "int \<Rightarrow> 'v text2cypher_cache" where
  "init_cache n = \<lparr>max_size = n, cache = [], hits = 0, misses = 0\<rparr>"

definition get_cache ::
  "digest \<Rightarrow> string \<Rightarrow> json \<Rightarrow> 'v text2cypher_cache \<Rightarrow> py_error + ('v option \<times> 'v text2cypher_cache)" where
  "get_cache H question schema c =
     (let key = generate_key H question schema in
      if od_contains key (cache c) then
        (let c1 = c\<lparr>hits := hits c + 1\<rparr> in
         case move_to_end key (cache c1) of
           Inl e \<Rightarrow> Inl e
         | Inr d \<Rightarrow>
             (case od_getitem key d of
                Inl e \<Rightarrow> Inl e
              | Inr v \<Rightarrow> Inr (Some v, c1\<lparr>cache := d\<rparr>)))
      else Inr (None, c\<lparr>misses := misses c + 1\<rparr>))"

definition set_cache ::
  "digest \<Rightarrow> string \<Rightarrow> json \<Rightarrow> 'v \<Rightarrow> 'v text2cypher_cache \<Rightarrow> py_error + 'v text2cypher_cache" where
  "set_cache H question schema result c =
     (let key = generate_key H question schema in
      case (if od_contains key (cache c) then move_to_end key (cache c) else Inr (cache c)) of
        Inl e \<Rightarrow> Inl e
      | Inr d1 \<Rightarrow>
          (let d2 = od_setitem key result d1 in
           if int (length d2) > max_size c then
             (case popitem_first d2 of
                Inl e \<Rightarrow> Inl e
              | Inr (_, d3) \<Rightarrow> Inr (c\<lparr>cache := d3\<rparr>))
           else Inr (c\<lparr>cache := d2\<rparr>)))"

definition clear_cache :: "'v text2cypher_cache \<Rightarrow> 'v text2cypher_cache" where
  "clear_cache c = c\<lparr>cache := [], hits := 0, misses := 0\<rparr>"

text \<open>
  \<^verbatim>\<open>a / b\<close> on integers is true division: it raises on a zero divisor.  The quotient
  is taken exactly (a real number); the rounding of the float result is not modelled.
\<close>

definition py_truediv :: "int \<Rightarrow> int \<Rightarrow> py_error + real" where
  "py_truediv a b = (if b = 0 then Inl ZeroDivisionError else Inr (real_of_int a / real_of_int b))"

record cache_stats =
  stat_size :: nat
  stat_max_size :: int
  stat_hits :: int
  stat_misses :: int
  stat_hit_rate :: real

definition get_stats :: "'v text2cypher_cache \<Rightarrow> py_error + cache_stats" where
  "get_stats c =
     (let total_requests = hits c + misses c in
      case (if total_requests > 0 then py_truediv (hits c) total_requests else Inr 0) of
        Inl e \<Rightarrow> Inl e
      | Inr hit_rate \<Rightarrow>
          Inr \<lparr>stat_size = length (cache c), stat_max_size = max_size c,
               stat_hits = hits c, stat_misses = misses c, stat_hit_rate = hit_rate\<rparr>)"

text \<open>A run of calls on one cache object; it stops at the first exception.\<close>

datatype 'v cache_call =
    Get string json
  | Set string json 'v
  | Clear
  | Stats

fun call_cache :: "digest \<Rightarrow> 'v cache_call \<Rightarrow> 'v text2cypher_cache \<Rightarrow> py_error + 'v text2cypher_cache" where
  "call_cache H (Get q s) c = (case get_cache H q s c of Inl e \<Rightarrow> Inl e | Inr (_, c') \<Rightarrow> Inr c')"
| "call_cache H (Set q s r) c = set_cache H q s r c"
| "call_cache H Clear c = Inr (clear_cache c)"
| "call_cache H Stats c = (case get_stats c of Inl e \<Rightarrow> Inl e | Inr _ \<Rightarrow> Inr c)"

fun run_cache :: "digest \<Rightarrow> 'v cache_call list \<Rightarrow> 'v text2cypher_cache \<Rightarrow> py_error + 'v text2cypher_cache" where
  "run_cache H [] c = Inr c"
| "run_cache H (x # xs) c =
     (case call_cache H x c of Inl e \<Rightarrow> Inl e | Inr c' \<Rightarrow> run_cache H xs c')"

section \<open>cypher\_validator.py\<close>

subsection \<open>String methods\<close>

text \<open>\<^verbatim>\<open>str.isspace\<close> and the class \<^verbatim>\<open>\s\<close>: tab to carriage return, the four separators
  \<^verbatim>\<open>\x1c..\x1f\<close>, the space, and \<^verbatim>\<open>\x85\<close> and \<^verbatim>\<open>\xa0\<close>.\<close>

definition is_space :: "char \<Rightarrow> bool" where
  "is_space c =
     ((CHR 0x09 \<le> c \<and> c \<le> CHR 0x0D) \<or> (CHR 0x1C \<le> c \<and> c \<le> CHR 0x20) \<or>
      c = CHR 0x85 \<or> c = CHR 0xA0)"

text \<open>The class \<^verbatim>\<open>\w\<close>: the underscore and the characters that are alphanumeric for
  \<^verbatim>\<open>str.isalnum\<close>, that is the ASCII letters and digits and, above them, the letters,
  superscript digits and fractions of Latin-1.\<close>

definition is_word :: "char \<Rightarrow> bool" where
  "is_word c =
     ((CHR ''a'' \<le> c \<and> c \<le> CHR ''z'') \<or> (CHR ''A'' \<le> c \<and> c \<le> CHR ''Z'') \<or>
      (CHR ''0'' \<le> c \<and> c \<le> CHR ''9'') \<or> c = CHR ''_'' \<or>
      c = CHR 0xAA \<or> (CHR 0xB2 \<le> c \<and> c \<le> CHR 0xB3) \<or> c = CHR 0xB5 \<or>
      (CHR 0xB9 \<le> c \<and> c \<le> CHR 0xBA) \<or> (CHR 0xBC \<le> c \<and> c \<le> CHR 0xBE) \<or>
      (CHR 0xC0 \<le> c \<and> c \<le> CHR 0xD6) \<or> (CHR 0xD8 \<le> c \<and> c \<le> CHR 0xF6) \<or>
      CHR 0xF8 \<le> c)"

text \<open>
  The lower case of a character: the capital letters \<^verbatim>\<open>A..Z\<close> and
  \<^verbatim>\<open>\xc0..\xde\<close> (the multiplication sign \<^verbatim>\<open>\xd7\<close> apart) are 32 below their small
  letters, which is the sixth bit.  The upper case, for the small letters whose capital
  is in the same range.
\<close>

definition lower_char :: "char \<Rightarrow> char" where
  "lower_char c =
     (if (CHR ''A'' \<le> c \<and> c \<le> CHR ''Z'') \<or> (CHR 0xC0 \<le> c \<and> c \<le> CHR 0xDE \<and> c \<noteq> CHR 0xD7)
      then (case c of Char b0 b1 b2 b3 b4 b5 b6 b7 \<Rightarrow> Char b0 b1 b2 b3 b4 True b6 b7)
      else c)"

definition upper_char :: "char \<Rightarrow> char" where
  "upper_char c =
     (if (CHR ''a'' \<le> c \<and> c \<le> CHR ''z'') \<or> (CHR 0xE0 \<le> c \<and> c \<le> CHR 0xFE \<and> c \<noteq> CHR 0xF7)
      then (case c of Char b0 b1 b2 b3 b4 b5 b6 b7 \<Rightarrow> Char b0 b1 b2 b3 b4 False b6 b7)
      else c)"

text \<open>\<^verbatim>\<open>s.lower()\<close>\<close>

definition lower :: "string \<Rightarrow> string" where
  "lower s = map lower_char s"

text \<open>\<^verbatim>\<open>s.strip()\<close>, \<^verbatim>\<open>s.rstrip(chars)\<close>\<close>

definition strip :: "string \<Rightarrow> string" where
  "strip s = dropWhile is_space (rev (dropWhile is_space (rev s)))"

definition rstrip :: "string \<Rightarrow> string \<Rightarrow> string" where
  "rstrip chars s = rev (dropWhile (\<lambda>c. c \<in> set chars) (rev s))"

text \<open>\<^verbatim>\<open>s.startswith(p)\<close> and \<^verbatim>\<open>sub in s\<close>\<close>

definition startswith :: "string \<Rightarrow> string \<Rightarrow> bool" where
  "startswith s p = (take (length p) s = p)"

fun contains :: "string \<Rightarrow> string \<Rightarrow> bool" where
  "contains [] sub = (sub = [])"
| "contains (c # cs) sub = (startswith (c # cs) sub \<or> contains cs sub)"

text \<open>\<^verbatim>\<open>s[i:j]\<close> for \<open>0 \<le> i\<close> and \<open>0 \<le> j\<close>: both ends are clipped to the string.\<close>

definition slice :: "string \<Rightarrow> nat \<Rightarrow> nat \<Rightarrow> string" where
  "slice s i j = take (j - i) (drop i s)"

text \<open>\<^verbatim>\<open>s.replace(old, new, 1)\<close>: the leftmost occurrence only.\<close>

fun replace_first :: "string \<Rightarrow> string \<Rightarrow> string \<Rightarrow> string" where
  "replace_first old new [] = (if old = [] then new else [])"
| "replace_first old new (c # cs) =
     (if startswith (c # cs) old then new @ drop (length old) (c # cs)
      else c # replace_first old new cs)"

text \<open>\<^verbatim>\<open>s.replace(old, new)\<close>: every occurrence, left to right, without overlap.  With
  an empty \<open>old\<close> Python inserts \<open>new\<close> around every character.\<close>

function replace_nonempty :: "string \<Rightarrow> string \<Rightarrow> string \<Rightarrow> string" where
  "replace_nonempty old new [] = []"
| "replace_nonempty old new (c # cs) =
     (if old \<noteq> [] \<and> startswith (c # cs) old
      then new @ replace_nonempty old new (drop (length old) (c # cs))
      else c # replace_nonempty old new cs)"
  by pat_completeness auto
termination
  by (relation "measure (\<lambda>(old, new, s). length s)") auto

definition replace :: "string \<Rightarrow> string \<Rightarrow> string \<Rightarrow> string" where
  "replace old new s =
     (if old = [] then new @ concat (map (\<lambda>c. c # new) s) else replace_nonempty old new s)"

text \<open>\<^verbatim>\<open>s.split(sep)\<close> for a one-character separator, and \<^verbatim>\<open>s.split()\<close> on runs of
  whitespace.\<close>

fun split_on :: "char \<Rightarrow> string \<Rightarrow> string list" where
  "split_on sep [] = [[]]"
| "split_on sep (c # cs) =
     (if c = sep then [] # split_on sep cs
      else (case split_on sep cs of
              [] \<Rightarrow> [[c]]
            | piece # pieces \<Rightarrow> (c # piece) # pieces))"

fun split_ws :: "string \<Rightarrow> string list" where
  "split_ws [] = []"
| "split_ws (c # cs) =
     (if is_space c then split_ws cs
      else (case cs of
              [] \<Rightarrow> [[c]]
            | d # ds \<Rightarrow>
                if is_space d then [c] # split_ws cs
                else (case split_ws cs of
                        [] \<Rightarrow> [[c]]
                      | tok # toks \<Rightarrow> (c # tok) # toks)))"

subsection \<open>The regular expressions of the module\<close>

text \<open>
  A backtracking matcher for the fragment of \<^verbatim>\<open>re\<close> that the module uses.  A pattern
  is a sequence of items; repetition applies to character classes only.  The matcher
  returns every way to match, in the order in which Python's engine tries them, so the
  head of the list is the match Python reports.
\<close>

datatype cls =
    CWord
  | CSpace
  | CLit char
  | CRange char char
  | CNot cls
  | COr cls cls

fun in_cls :: "bool \<Rightarrow> cls \<Rightarrow> char \<Rightarrow> bool" where
  "in_cls ic CWord c = is_word c"
| "in_cls ic CSpace c = is_space c"
| "in_cls ic (CLit x) c = (if ic then lower_char c = lower_char x else c = x)"
| "in_cls ic (CRange a b) c =
     ((a \<le> c \<and> c \<le> b) \<or>
      (ic \<and> ((a \<le> lower_char c \<and> lower_char c \<le> b) \<or> (a \<le> upper_char c \<and> upper_char c \<le> b))))"
| "in_cls ic (CNot k) c = (\<not> in_cls ic k c)"
| "in_cls ic (COr k1 k2) c = (in_cls ic k1 c \<or> in_cls ic k2 c)"

datatype rx =
    One cls
  | Greedy nat cls
  | Lazy nat cls
  | Group nat "rx list"
  | Alt "rx list list"
  | NotBehind string
  | WordBoundary
  | Caret
  | Dollar

text \<open>
  A matching state: the text before the position (reversed), the text from the position
  on, and the groups captured so far (the latest first).
\<close>

type_synonym mstate = "string \<times> string \<times> (nat \<times> string) list"

definition at_word :: "string \<Rightarrow> bool" where
  "at_word s = (case s of [] \<Rightarrow> False | c # _ \<Rightarrow> is_word c)"

fun step :: "bool \<Rightarrow> rx \<Rightarrow> mstate \<Rightarrow> mstate list"
  and run :: "bool \<Rightarrow> rx list \<Rightarrow> mstate \<Rightarrow> mstate list" where
  "step ic (One k) (b, r, g) =
     (case r of [] \<Rightarrow> [] | c # cs \<Rightarrow> if in_cls ic k c then [(c # b, cs, g)] else [])"
| "step ic (Greedy n k) (b, r, g) =
     (let w = takeWhile (in_cls ic k) r
      in map (\<lambda>j. (rev (take j w) @ b, drop j r, g)) (rev [n..<Suc (length w)]))"
| "step ic (Lazy n k) (b, r, g) =
     (let w = takeWhile (in_cls ic k) r
      in map (\<lambda>j. (rev (take j w) @ b, drop j r, g)) [n..<Suc (length w)])"
| "step ic (Group i items) (b, r, g) =
     map (\<lambda>(b', r', g'). (b', r', (i, rev (take (length b' - length b) b')) # g'))
       (run ic items (b, r, g))"
| "step ic (Alt alts) st = concat (map (\<lambda>a. run ic a st) alts)"
| "step ic (NotBehind w) (b, r, g) =
     (if length w \<le> length b \<and>
         (if ic then lower (rev (take (length w) b)) = lower w else rev (take (length w) b) = w)
      then [] else [(b, r, g)])"
| "step ic WordBoundary (b, r, g) = (if at_word b \<noteq> at_word r then [(b, r, g)] else [])"
| "step ic Caret (b, r, g) = (if b = [] then [(b, r, g)] else [])"
| "step ic Dollar (b, r, g) = (if r = [] \<or> r = [CHR 0x0A] then [(b, r, g)] else [])"
| "run ic [] st = [st]"
| "run ic (x # xs) st = concat (map (run ic xs) (step ic x st))"

text \<open>A literal word of a pattern, one item per character.\<close>

definition lit :: "string \<Rightarrow> rx list" where
  "lit s = map (\<lambda>c. One (CLit c)) s"

record re_match =
  m_start :: nat
  m_text :: string
  m_groups :: "(nat \<times> string) list"

text \<open>The match at one position, if any: the first way to match that the engine finds.\<close>

definition match_at :: "bool \<Rightarrow> rx list \<Rightarrow> string \<Rightarrow> string \<Rightarrow> re_match option" where
  "match_at ic pat b r =
     (case run ic pat (b, r, []) of
        [] \<Rightarrow> None
      | (b', r', g) # _ \<Rightarrow>
          Some \<lparr>m_start = length b, m_text = rev (take (length b' - length b) b'), m_groups = g\<rparr>)"

text \<open>
  \<^verbatim>\<open>re.finditer\<close>: the leftmost match, then the leftmost match after its end, and so
  on; \<open>skip\<close> counts the characters of the last match still to pass.  No pattern of the
  module matches the empty string.
\<close>

fun scan :: "bool \<Rightarrow> rx list \<Rightarrow> string \<Rightarrow> string \<Rightarrow> nat \<Rightarrow> re_match list" where
  "scan ic pat b [] skip =
     (if skip = 0 then (case match_at ic pat b [] of None \<Rightarrow> [] | Some m \<Rightarrow> [m]) else [])"
| "scan ic pat b (c # cs) skip =
     (if skip > 0 then scan ic pat (c # b) cs (skip - 1)
      else (case match_at ic pat b (c # cs) of
              None \<Rightarrow> scan ic pat (c # b) cs 0
            | Some m \<Rightarrow> m # scan ic pat (c # b) cs (length (m_text m) - 1)))"

definition finditer :: "bool \<Rightarrow> rx list \<Rightarrow> string \<Rightarrow> re_match list" where
  "finditer ic pat s = scan ic pat [] s 0"

definition search :: "bool \<Rightarrow> rx list \<Rightarrow> string \<Rightarrow> re_match option" where
  "search ic pat s = (case finditer ic pat s of [] \<Rightarrow> None | m # _ \<Rightarrow> Some m)"

text \<open>A replacement template: literal text and group references (\<^verbatim>\<open>\1\<close>, \<^verbatim>\<open>\2\<close>).\<close>

datatype tpart = TLit string | TGroup nat

definition expand :: "tpart list \<Rightarrow> re_match \<Rightarrow> string" where
  "expand t m =
     concat (map (\<lambda>p. case p of
                         TLit s \<Rightarrow> s
                       | TGroup i \<Rightarrow> (case map_of (m_groups m) i of None \<Rightarrow> [] | Some s \<Rightarrow> s)) t)"

text \<open>\<^verbatim>\<open>re.sub\<close>: every match found by the same scan is replaced by the expanded
  template.\<close>

fun sub_scan :: "bool \<Rightarrow> rx list \<Rightarrow> tpart list \<Rightarrow> string \<Rightarrow> string \<Rightarrow> nat \<Rightarrow> string" where
  "sub_scan ic pat t b [] skip =
     (if skip = 0 then (case match_at ic pat b [] of None \<Rightarrow> [] | Some m \<Rightarrow> expand t m) else [])"
| "sub_scan ic pat t b (c # cs) skip =
     (if skip > 0 then sub_scan ic pat t (c # b) cs (skip - 1)
      else (case match_at ic pat b (c # cs) of
              None \<Rightarrow> c # sub_scan ic pat t (c # b) cs 0
            | Some m \<Rightarrow>
                expand t m @ (if m_text m = [] then [c] else []) @
                sub_scan ic pat t (c # b) cs (length (m_text m) - 1)))"

definition re_sub :: "bool \<Rightarrow> rx list \<Rightarrow> tpart list \<Rightarrow> string \<Rightarrow> string" where
  "re_sub ic pat t s = sub_scan ic pat t [] s 0"

definition group :: "nat \<Rightarrow> re_match \<Rightarrow> string" where
  "group i m = (case map_of (m_groups m) i of None \<Rightarrow> [] | Some s \<Rightarrow> s)"

subsection \<open>\<^verbatim>\<open>CypherQueryValidator\<close>\<close>

text \<open>
  The database connection: \<^verbatim>\<open>conn.execute(q)\<close> either returns or raises an
  \<^verbatim>\<open>Exception\<close> whose \<^verbatim>\<open>str\<close> is the message.  What it does may depend on the
  calls made before; the connection records every call it receives.
\<close>

datatype exec_result = Returned | Raised string

record connection =
  respond :: "string list \<Rightarrow> string \<Rightarrow> exec_result"
  calls :: "string list"

definition execute :: "string \<Rightarrow> connection \<Rightarrow> exec_result \<times> connection" where
  "execute q conn = (respond conn (calls conn) q, conn\<lparr>calls := calls conn @ [q]\<rparr>)"

definition validate_syntax :: "string \<Rightarrow> connection \<Rightarrow> (bool \<times> string option) \<times> connection" where
  "validate_syntax query conn =
     (let explain_query = ''EXPLAIN '' @ query in
      case execute explain_query conn of
        (Returned, conn') \<Rightarrow> ((True, None), conn')
      | (Raised e, conn') \<Rightarrow> ((False, Some e), conn'))"

text \<open>\<^verbatim>\<open>r"(\w+\.\w+)\s*=\s*'([^']+)'"\<close>\<close>

definition equals_pattern :: "rx list" where
  "equals_pattern =
     [Group 1 [Greedy 1 CWord, One (CLit CHR ''.''), Greedy 1 CWord],
      Greedy 0 CSpace, One (CLit CHR ''=''), Greedy 0 CSpace,
      One (CLit CHR 0x27), Group 2 [Greedy 1 (CNot (CLit CHR 0x27))], One (CLit CHR 0x27)]"

text \<open>\<^verbatim>\<open>r"(?<!lower\()(\w+\.\w+)\s+CONTAINS\s+'([^']+)'"\<close>\<close>

definition contains_pattern :: "rx list" where
  "contains_pattern =
     [NotBehind ''lower('',
      Group 1 [Greedy 1 CWord, One (CLit CHR ''.''), Greedy 1 CWord], Greedy 1 CSpace]
     @ lit ''CONTAINS'' @
     [Greedy 1 CSpace,
      One (CLit CHR 0x27), Group 2 [Greedy 1 (CNot (CLit CHR 0x27))], One (CLit CHR 0x27)]"

text \<open>\<^verbatim>\<open>r"lower(\1) CONTAINS '\2'"\<close>\<close>

definition lower_contains :: "tpart list" where
  "lower_contains =
     [TLit ''lower('', TGroup 1, TLit ('') CONTAINS '' @ [CHR 0x27]), TGroup 2, TLit [CHR 0x27]]"

definition patterns :: "(rx list \<times> tpart list) list" where
  "patterns = [(equals_pattern, lower_contains), (contains_pattern, lower_contains)]"

text \<open>
  The inner loop of \<^verbatim>\<open>_enforce_lowercase_comparisons\<close>.  The matches were found in the
  string as it was when the loop began; \<open>result\<close> is the string as rewritten so far.
\<close>

fun rewrite_matches :: "rx list \<Rightarrow> tpart list \<Rightarrow> re_match list \<Rightarrow> string \<Rightarrow> string" where
  "rewrite_matches pattern replacement [] result = result"
| "rewrite_matches pattern replacement (m # ms) result =
     (let original = m_text m in
      if \<not> contains (lower (slice result (nat (max 0 (int (m_start m) - 20))) (m_start m))) ''lower''
      then (let new_text = re_sub True pattern replacement original
            in rewrite_matches pattern replacement ms (replace_first original new_text result))
      else rewrite_matches pattern replacement ms result)"

definition enforce_lowercase_comparisons :: "string \<Rightarrow> string" where
  "enforce_lowercase_comparisons query =
     foldl (\<lambda>result (pattern, replacement).
              rewrite_matches pattern replacement (finditer True pattern result) result)
       query patterns"

text \<open>\<^verbatim>\<open>r'\bRETURN\b(.+?)(?:ORDER BY|LIMIT|$)'\<close> and \<^verbatim>\<open>r'^[a-zA-Z_][a-zA-Z0-9_]*$'\<close>\<close>

definition return_pattern :: "rx list" where
  "return_pattern =
     [WordBoundary] @ lit ''RETURN'' @
     [WordBoundary, Group 1 [Lazy 1 (CNot (CLit CHR 0x0A))],
      Alt [lit ''ORDER BY'', lit ''LIMIT'', [Dollar]]]"

definition identifier_pattern :: "rx list" where
  "identifier_pattern =
     [Caret,
      One (COr (CRange CHR ''a'' CHR ''z'') (COr (CRange CHR ''A'' CHR ''Z'') (CLit CHR ''_''))),
      Greedy 0 (COr (CRange CHR ''a'' CHR ''z'') (COr (CRange CHR ''A'' CHR ''Z'')
                 (COr (CRange CHR ''0'' CHR ''9'') (CLit CHR ''_'')))),
      Dollar]"

text \<open>
  The loop over the returned items; its value is \<^verbatim>\<open>needs_fix\<close>.
  \<^verbatim>\<open>item.split()[0]\<close> raises when the item has no token.
\<close>

fun check_items :: "string list \<Rightarrow> py_error + bool" where
  "check_items [] = Inr False"
| "check_items (item # items) =
     (case split_ws item of
        [] \<Rightarrow> Inl IndexError
      | tok # _ \<Rightarrow>
          (case match_at False identifier_pattern [] tok of
             Some _ \<Rightarrow> Inr True
           | None \<Rightarrow> check_items items))"

definition fix_return_projection :: "string \<Rightarrow> py_error + string" where
  "fix_return_projection query =
     (case search True return_pattern query of
        None \<Rightarrow> Inr query
      | Some return_match \<Rightarrow>
          (let return_clause = strip (group 1 return_match);
               items = map strip (split_on CHR '','' return_clause)
           in case check_items items of
                Inl e \<Rightarrow> Inl e
              | Inr needs_fix \<Rightarrow> Inr query))"

definition post_process :: "string \<Rightarrow> py_error + string" where
  "post_process query =
     (let processed_query = strip query;
          processed_query = enforce_lowercase_comparisons processed_query
      in case fix_return_projection processed_query of
           Inl e \<Rightarrow> Inl e
         | Inr processed_query \<Rightarrow>
             (let processed_query = re_sub False [Greedy 1 CSpace] [TLit '' ''] processed_query;
                  processed_query = replace ''to_lower('' ''lower('' processed_query
              in Inr processed_query))"

subsection \<open>\<^verbatim>\<open>CypherSelfRefinement\<close>\<close>

text \<open>\<^verbatim>\<open>r'CALL apoc\.[^\s]+'\<close>\<close>

definition apoc_pattern :: "rx list" where
  "apoc_pattern = lit ''CALL apoc'' @ [One (CLit CHR ''.''), Greedy 1 (CNot CSpace)]"

definition apply_heuristic_repairs :: "string \<Rightarrow> string \<Rightarrow> string" where
  "apply_heuristic_repairs query error_msg =
     (let repaired = query;
          repaired = (if contains (lower error_msg) ''semicolon''
                      then rstrip '';'' repaired @ '';'' else repaired);
          repaired = (if contains (lower repaired) ''apoc''
                      then re_sub True apoc_pattern [] repaired else repaired)
      in repaired)"

text \<open>
  A caller's repair function receives the candidate and the message as \<^verbatim>\<open>refine\<close>
  holds it (an optional string).  Without one the heuristics run, and
  \<^verbatim>\<open>error_msg.lower()\<close> raises on \<^verbatim>\<open>None\<close>.
\<close>

type_synonym repair_fn = "string \<Rightarrow> string option \<Rightarrow> string"

definition next_candidate :: "repair_fn option \<Rightarrow> string \<Rightarrow> string option \<Rightarrow> py_error + string" where
  "next_candidate repair current_query error_msg =
     (case repair of
        Some f \<Rightarrow> Inr (f current_query error_msg)
      | None \<Rightarrow>
          (case error_msg of
             None \<Rightarrow> Inl AttributeError
           | Some msg \<Rightarrow> Inr (apply_heuristic_repairs current_query msg)))"

text \<open>\<^verbatim>\<open>f"{error_msg}"\<close>\<close>

definition format_msg :: "string option \<Rightarrow> string" where
  "format_msg error_msg = (case error_msg of None \<Rightarrow> ''None'' | Some s \<Rightarrow> s)"

text \<open>
  The loop of \<^verbatim>\<open>refine\<close> over the attempts still to make.  \<open>processed_query\<close> is
  bound by the first iteration only, so it is optional; reading it unbound raises.
\<close>

fun refine_loop ::
  "repair_fn option \<Rightarrow> nat list \<Rightarrow> string \<Rightarrow> string list \<Rightarrow> string option \<Rightarrow> connection \<Rightarrow>
     (py_error + string \<times> bool \<times> string list) \<times> connection" where
  "refine_loop repair [] current_query error_history processed_query conn =
     (case processed_query of
        None \<Rightarrow> (Inl UnboundLocalError, conn)
      | Some p \<Rightarrow> (Inr (p, False, error_history), conn))"
| "refine_loop repair (attempt # attempts) current_query error_history processed_query conn =
     (case post_process current_query of
        Inl e \<Rightarrow> (Inl e, conn)
      | Inr processed \<Rightarrow>
          (case validate_syntax processed conn of
             ((is_valid, error_msg), conn') \<Rightarrow>
               if is_valid then (Inr (processed, True, error_history), conn')
               else
                 (let error_history' = error_history @
                        [''Attempt '' @ str_nat (attempt + 1) @ '': '' @ format_msg error_msg]
                  in case next_candidate repair current_query error_msg of
                       Inl e \<Rightarrow> (Inl e, conn')
                     | Inr current_query' \<Rightarrow>
                         refine_loop repair attempts current_query' error_history'
                           (Some processed) conn')))"

definition refine ::
  "int \<Rightarrow> string \<Rightarrow> repair_fn option \<Rightarrow> connection \<Rightarrow>
     (py_error + string \<times> bool \<times> string list) \<times> connection" where
  "refine max_attempts query repair conn =
     refine_loop repair [0..<nat max_attempts] query [] None conn"

section \<open>performance\_benchmark.py\<close>

text \<open>
  Times are real numbers: the arithmetic of \<^verbatim>\<open>get_timing_breakdown\<close> is taken
  exactly, the rounding of floats is not modelled.  The dictionaries keep their
  insertion order.
\<close>

record performance_tracker =
  timings :: "(string \<times> real list) list"
  current_run :: "(string \<times> real) list"
  stage_stack :: "(string \<times> real) list"

record stage_metrics =
  time_seconds :: real
  time_ms :: real
  percentage :: real

text \<open>\<^verbatim>\<open>sorted(items, key=lambda x: x[1], reverse=True)\<close>: descending, and stable (equal
  times keep their order).\<close>

definition sorted_desc :: "(string \<times> real) list \<Rightarrow> (string \<times> real) list" where
  "sorted_desc items = rev (sort_key snd (rev items))"

definition get_timing_breakdown :: "performance_tracker \<Rightarrow> (string \<times> stage_metrics) list" where
  "get_timing_breakdown t =
     (if current_run t = [] then []
      else
        (let total_time = sum_list (map snd (current_run t));
             breakdown =
               foldl (\<lambda>breakdown (stage, elapsed).
                        od_setitem stage
                          \<lparr>time_seconds = elapsed, time_ms = elapsed * 1000,
                           percentage = (if total_time > 0 then elapsed / total_time * 100 else 0)\<rparr>
                          breakdown)
                 [] (sorted_desc (current_run t))
         in od_setitem ''_total''
              \<lparr>time_seconds = total_time, time_ms = total_time * 1000, percentage = 100\<rparr>
              breakdown))"

section \<open>Notions used by the properties\<close>

text \<open>
  Two JSON values that are the same up to the order of the fields of their
  dictionaries, at every depth.  A dictionary has distinct keys.
\<close>

function same_mapping :: "json \<Rightarrow> json \<Rightarrow> bool" where
  "same_mapping (JObj xs) b =
     (case b of
        JObj ys \<Rightarrow>
          distinct (map fst xs) \<and> distinct (map fst ys) \<and> set (map fst xs) = set (map fst ys) \<and>
          list_all (\<lambda>kv. case map_of ys (fst kv) of
                           None \<Rightarrow> False
                         | Some v \<Rightarrow> same_mapping (snd kv) v) xs
      | _ \<Rightarrow> False)"
| "same_mapping (JArr xs) b =
     (case b of
        JArr ys \<Rightarrow> length xs = length ys \<and> list_all (\<lambda>(x, y). same_mapping x y) (zip xs ys)
      | _ \<Rightarrow> False)"
| "same_mapping JNull b = (b = JNull)"
| "same_mapping (JBool x) b = (b = JBool x)"
| "same_mapping (JInt i) b = (b = JInt i)"
| "same_mapping (JStr s) b = (b = JStr s)"
  by pat_completeness auto
termination
proof (relation "measure (\<lambda>(a, b). size a)")
  fix xs :: "(string \<times> json) list" and b x2 kv x2a
  assume "kv \<in> set xs"
  then have "Suc (size_prod (\<lambda>_. 0) size kv) \<le> Suc (size_list (size_prod (\<lambda>_. 0) size) xs)"
    by (simp add: size_list_estimation')
  moreover have "size (snd kv) < Suc (size_prod (\<lambda>_. 0) size kv)"
    by (cases kv) simp
  ultimately have "size (snd kv) < Suc (size_list (size_prod (\<lambda>_. 0) size) xs)"
    by simp
  then show "((snd kv, x2a), JObj xs, b) \<in> measure (\<lambda>(a, b). size a)" by simp
next
  fix xs :: "json list" and b x2 z x y
  assume "z \<in> set (zip xs x2)" and "(x, y) = z"
  then have "x \<in> set xs" by (auto dest: set_zip_leftD)
  then have "size x < Suc (size_list size xs)"
    by (induction xs) auto
  then show "((x, y), JArr xs, b) \<in> measure (\<lambda>(a, b). size a)" by simp
qed simp

text \<open>
  One attempt of the refinement loop in which validation is reached and fails: the next
  candidate and the connection after the call.  \<open>failed_attempts k\<close> is \<open>k\<close> such
  attempts in a row.
\<close>

definition failed_attempt ::
  "repair_fn option \<Rightarrow> string \<times> connection \<Rightarrow> (string \<times> connection) option" where
  "failed_attempt repair qc =
     (case post_process (fst qc) of
        Inl e \<Rightarrow> None
      | Inr processed \<Rightarrow>
          (case validate_syntax processed (snd qc) of
             ((is_valid, error_msg), conn') \<Rightarrow>
               if is_valid then None
               else (case next_candidate repair (fst qc) error_msg of
                       Inl e \<Rightarrow> None
                     | Inr q' \<Rightarrow> Some (q', conn'))))"

fun failed_attempts ::
  "repair_fn option \<Rightarrow> nat \<Rightarrow> string \<times> connection \<Rightarrow> (string \<times> connection) option" where
  "failed_attempts repair 0 qc = Some qc"
| "failed_attempts repair (Suc k) qc =
     (case failed_attempt repair qc of
        None \<Rightarrow> None
      | Some qc' \<Rightarrow> failed_attempts repair k qc')"

text \<open>The sum of the percentages of the stages in a breakdown, the entry
  \<^verbatim>\<open>_total\<close> apart.\<close>

definition percentage_sum :: "(string \<times> stage_metrics) list \<Rightarrow> real" where
  "percentage_sum breakdown =
     sum_list (map (\<lambda>kv. percentage (snd kv)) (filter (\<lambda>kv. fst kv \<noteq> ''_total'') breakdown))"

text \<open>
  The invariant of a cache object: distinct keys, at most \<open>max_size\<close> entries, and
  counters that only count up from zero.
\<close>

definition cache_inv :: "'v text2cypher_cache \<Rightarrow> bool" where
  "cache_inv c =
     (distinct (map fst (cache c)) \<and> int (length (cache c)) \<le> max_size c \<and>
      0 \<le> hits c \<and> 0 \<le> misses c)"

text \<open>A connection that rejects every query with the same message, and a repair
  function that pads the candidate with two spaces.\<close>

definition rejecting :: "string \<Rightarrow> connection" where
  "rejecting msg = \<lparr>respond = (\<lambda>h q. Raised msg), calls = []\<rparr>"

definition padding :: repair_fn where
  "padding q e = q @ ''  ''"

section \<open>Properties\<close>

subsection \<open>The cache\<close>

lemma move_to_end_present:
  assumes "od_contains k d"
  shows "\<exists>v. map_of d k = Some v \<and> move_to_end k d = Inr (filter (\<lambda>kv. fst kv \<noteq> k) d @ [(k, v)])"
proof -
  from assms have "k \<in> fst ` set d" by (simp add: od_contains_def)
  then obtain v where "map_of d k = Some v"
    by (metis domD dom_map_of_conv_image_fst)
  then show ?thesis by (simp add: move_to_end_def)
qed

lemma filter_absent_key:
  "k \<notin> fst ` set d \<Longrightarrow> filter (\<lambda>kv. fst kv \<noteq> k) d = d"
  by (induction d) auto

lemma length_filter_distinct:
  assumes "distinct (map fst d)" and "k \<in> set (map fst d)"
  shows "Suc (length (filter (\<lambda>kv. fst kv \<noteq> k) d)) = length d"
  using assms by (induction d) (auto simp: filter_absent_key)

lemma od_setitem_after_move:
  "od_setitem k r (filter (\<lambda>kv. fst kv \<noteq> k) d @ [(k, v)]) = filter (\<lambda>kv. fst kv \<noteq> k) d @ [(k, r)]"
  by (simp add: od_setitem_def od_contains_def) (induction d; auto)

lemma od_setitem_absent:
  "\<not> od_contains k d \<Longrightarrow> od_setitem k r d = d @ [(k, r)]"
  by (simp add: od_setitem_def)

lemma set_cache_present:
  assumes "od_contains (generate_key H q s) (cache c)"
    and "distinct (map fst (cache c))" and "int (length (cache c)) \<le> max_size c"
  shows "set_cache H q s r c =
     Inr (c\<lparr>cache := filter (\<lambda>kv. fst kv \<noteq> generate_key H q s) (cache c) @ [(generate_key H q s, r)]\<rparr>)"
proof -
  let ?k = "generate_key H q s"
  from move_to_end_present [OF assms(1)] obtain v where
    mv: "move_to_end ?k (cache c) = Inr (filter (\<lambda>kv. fst kv \<noteq> ?k) (cache c) @ [(?k, v)])"
    by blast
  have "Suc (length (filter (\<lambda>kv. fst kv \<noteq> ?k) (cache c))) = length (cache c)"
    using assms(1,2) by (intro length_filter_distinct) (simp_all add: od_contains_def)
  then have len: "\<not> int (Suc (length (filter (\<lambda>kv. fst kv \<noteq> ?k) (cache c)))) > max_size c"
    using assms(3) by simp
  show ?thesis
    unfolding set_cache_def Let_def using assms(1) mv len
    by (simp add: od_setitem_after_move)
qed

lemma set_cache_absent:
  assumes "\<not> od_contains (generate_key H q s) (cache c)"
  shows "set_cache H q s r c =
     Inr (c\<lparr>cache := (if int (length (cache c)) + 1 > max_size c
                        then tl (cache c @ [(generate_key H q s, r)])
                        else cache c @ [(generate_key H q s, r)])\<rparr>)"
  using assms
  by (cases "cache c") (simp_all add: set_cache_def Let_def od_setitem_absent popitem_first_def)

lemma get_cache_present:
  assumes "od_contains (generate_key H q s) (cache c)"
  shows "\<exists>v. map_of (cache c) (generate_key H q s) = Some v \<and>
     get_cache H q s c =
       Inr (Some v, c\<lparr>hits := hits c + 1,
              cache := filter (\<lambda>kv. fst kv \<noteq> generate_key H q s) (cache c) @ [(generate_key H q s, v)]\<rparr>)"
proof -
  let ?k = "generate_key H q s"
  from move_to_end_present [OF assms] obtain v where
    v: "map_of (cache c) ?k = Some v"
    and mv: "move_to_end ?k (cache c) = Inr (filter (\<lambda>kv. fst kv \<noteq> ?k) (cache c) @ [(?k, v)])"
    by blast
  have "map_of (filter (\<lambda>kv. fst kv \<noteq> ?k) (cache c) @ [(?k, v)]) ?k = Some v"
    by (simp add: map_add_Some_iff map_of_eq_None_iff image_iff)
  then have "od_getitem ?k (filter (\<lambda>kv. fst kv \<noteq> ?k) (cache c) @ [(?k, v)]) = Inr v"
    by (simp add: od_getitem_def)
  with assms v mv show ?thesis
    by (simp add: get_cache_def Let_def)
qed

lemma get_cache_absent:
  assumes "\<not> od_contains (generate_key H q s) (cache c)"
  shows "get_cache H q s c = Inr (None, c\<lparr>misses := misses c + 1\<rparr>)"
  using assms by (simp add: get_cache_def Let_def)


lemma set_cache_inv:
  assumes "cache_inv c"
  shows "\<exists>c'. set_cache H q s r c = Inr c' \<and> cache_inv c' \<and> max_size c' = max_size c"
proof (cases "od_contains (generate_key H q s) (cache c)")
  case True
  let ?k = "generate_key H q s"
  from assms have d: "distinct (map fst (cache c))" and l: "int (length (cache c)) \<le> max_size c"
    by (simp_all add: cache_inv_def)
  have "Suc (length (filter (\<lambda>kv. fst kv \<noteq> ?k) (cache c))) = length (cache c)"
    using True d by (intro length_filter_distinct) (simp_all add: od_contains_def)
  moreover have "distinct (map fst (filter (\<lambda>kv. fst kv \<noteq> ?k) (cache c)))"
    using d by (simp add: distinct_map_filter)
  ultimately show ?thesis
    using assms l by (auto simp: set_cache_present [OF True d l] cache_inv_def)
next
  case False
  with assms show ?thesis
    by (cases "cache c") (auto simp: set_cache_absent cache_inv_def od_contains_def)
qed

lemma get_cache_inv:
  assumes "cache_inv c"
  shows "\<exists>v c'. get_cache H q s c = Inr (v, c') \<and> cache_inv c' \<and> max_size c' = max_size c"
proof (cases "od_contains (generate_key H q s) (cache c)")
  case True
  let ?k = "generate_key H q s"
  from assms have d: "distinct (map fst (cache c))"
    by (simp add: cache_inv_def)
  have "Suc (length (filter (\<lambda>kv. fst kv \<noteq> ?k) (cache c))) = length (cache c)"
    using True d by (intro length_filter_distinct) (simp_all add: od_contains_def)
  moreover have "distinct (map fst (filter (\<lambda>kv. fst kv \<noteq> ?k) (cache c)))"
    using d by (simp add: distinct_map_filter)
  ultimately show ?thesis
    using assms get_cache_present [OF True, of] by (auto simp: cache_inv_def)
next
  case False
  with assms show ?thesis
    by (simp add: get_cache_absent cache_inv_def)
qed

lemma get_stats_total:
  assumes "0 \<le> hits c" and "0 \<le> misses c"
  shows "get_stats c =
     Inr \<lparr>stat_size = length (cache c), stat_max_size = max_size c,
          stat_hits = hits c, stat_misses = misses c,
          stat_hit_rate = (if hits c = 0 \<and> misses c = 0 then 0
                           else real_of_int (hits c) / real_of_int (hits c + misses c))\<rparr>"
  using assms by (auto simp: get_stats_def Let_def py_truediv_def)

lemma call_cache_inv:
  assumes "cache_inv c"
  shows "\<exists>c'. call_cache H x c = Inr c' \<and> cache_inv c' \<and> max_size c' = max_size c"
proof (cases x)
  case (Get q s)
  with get_cache_inv [OF assms, of H q s] show ?thesis by auto
next
  case (Set q s r)
  with set_cache_inv [OF assms, of H q s r] show ?thesis by auto
next
  case Clear
  with assms show ?thesis by (simp add: clear_cache_def cache_inv_def)
next
  case Stats
  with assms show ?thesis by (simp add: get_stats_total cache_inv_def)
qed

lemma run_cache_inv:
  assumes "cache_inv c"
  shows "\<exists>c'. run_cache H xs c = Inr c' \<and> cache_inv c' \<and> max_size c' = max_size c"
  using assms
proof (induction xs arbitrary: c)
  case Nil
  then show ?case by simp
next
  case (Cons x xs)
  from call_cache_inv [OF Cons.prems, of H x] obtain c1 where
    c1: "call_cache H x c = Inr c1" "cache_inv c1" "max_size c1 = max_size c"
    by blast
  from Cons.IH [OF c1(2)] c1 show ?case by auto
qed

lemma cache_inv_init: "0 \<le> n \<Longrightarrow> cache_inv (init_cache n)"
  by (simp add: cache_inv_def init_cache_def)


lemma popitem_first_snoc:
  "popitem_first (xs @ [y]) = Inr (hd (xs @ [y]), tl (xs @ [y]))"
  by (cases xs) (simp_all add: popitem_first_def)

lemma set_cache_returns:
  "\<exists>c'. set_cache H q s r c = Inr c' \<and> hits c' = hits c \<and> misses c' = misses c"
proof (cases "od_contains (generate_key H q s) (cache c)")
  case True
  from move_to_end_present [OF True] obtain v where
    "move_to_end (generate_key H q s) (cache c) =
       Inr (filter (\<lambda>kv. fst kv \<noteq> generate_key H q s) (cache c) @ [(generate_key H q s, v)])"
    by blast
  with True show ?thesis
    by (simp add: set_cache_def Let_def od_setitem_after_move popitem_first_snoc)
next
  case False
  then show ?thesis by (simp add: set_cache_absent)
qed

lemma get_cache_returns:
  "\<exists>v c'. get_cache H q s c = Inr (v, c') \<and> hits c \<le> hits c' \<and> misses c \<le> misses c'"
proof (cases "od_contains (generate_key H q s) (cache c)")
  case True
  from get_cache_present [OF True] show ?thesis by auto
next
  case False
  then show ?thesis by (simp add: get_cache_absent)
qed

lemma call_cache_counters:
  assumes "0 \<le> hits c" and "0 \<le> misses c"
  shows "\<exists>c'. call_cache H x c = Inr c' \<and> 0 \<le> hits c' \<and> 0 \<le> misses c'"
proof (cases x)
  case (Get q s)
  with get_cache_returns [of H q s c] assms show ?thesis by auto
next
  case (Set q s r)
  with set_cache_returns [of H q s r c] assms show ?thesis by auto
next
  case Clear
  then show ?thesis by (simp add: clear_cache_def)
next
  case Stats
  with assms show ?thesis by (simp add: get_stats_total)
qed

lemma run_cache_counters:
  assumes "0 \<le> hits c" and "0 \<le> misses c"
  shows "\<exists>c'. run_cache H xs c = Inr c' \<and> 0 \<le> hits c' \<and> 0 \<le> misses c'"
  using assms
proof (induction xs arbitrary: c)
  case Nil
  then show ?case by simp
next
  case (Cons x xs)
  from call_cache_counters [OF Cons.prems, of H x] obtain c1 where
    c1: "call_cache H x c = Inr c1" "0 \<le> hits c1" "0 \<le> misses c1"
    by blast
  from Cons.IH [OF c1(2,3)] c1(1) show ?case by auto
qed

text \<open>
  Claim C7.  After any sequence of calls on a fresh cache, \<^verbatim>\<open>get_stats\<close> returns
  without raising, and the hit rate it reports is 0 when \<open>hits = misses = 0\<close> and
  \<open>hits / (hits + misses)\<close> otherwise (the quotient taken exactly).
\<close>

theorem get_stats_hit_rate:
  "\<exists>c st. run_cache H ops (init_cache n) = Inr c \<and> get_stats c = Inr st \<and>
     stat_hit_rate st =
       (if hits c = 0 \<and> misses c = 0 then 0
        else real_of_int (hits c) / real_of_int (hits c + misses c))"
proof -
  have "0 \<le> hits (init_cache n :: 'a text2cypher_cache)"
    and "0 \<le> misses (init_cache n :: 'a text2cypher_cache)"
    by (simp_all add: init_cache_def)
  from run_cache_counters [OF this, of H ops] obtain c :: "'a text2cypher_cache" where
    c: "run_cache H ops (init_cache n) = Inr c" "0 \<le> hits c" "0 \<le> misses c"
    by blast
  from get_stats_total [OF c(2,3)] c(1) show ?thesis by simp
qed

lemma example_key [simp]: "generate_key (\<lambda>s. s) q (JObj []) = take 16 q @ ''_{}''"
  by (simp add: generate_key_def)

lemma example_run:
  "run_cache (\<lambda>s. s)
     [Set ''A'' (JObj []) (1::nat), Get ''A'' (JObj []), Get ''A'' (JObj []),
      Get ''A'' (JObj []), Get ''B'' (JObj [])] (init_cache 100) =
   Inr \<lparr>max_size = 100, cache = [(''A_{}'', 1)], hits = 3, misses = 1\<rparr>"
  by (simp add: init_cache_def set_cache_def get_cache_def od_contains_def od_setitem_def
      move_to_end_def od_getitem_def Let_def)

text \<open>One stored entry, three hits and one miss: the hit rate is 0.75.\<close>

theorem get_stats_hit_rate_witness:
  "\<exists>c st. run_cache (\<lambda>s. s)
       [Set ''A'' (JObj []) (1::nat), Get ''A'' (JObj []), Get ''A'' (JObj []),
        Get ''A'' (JObj []), Get ''B'' (JObj [])] (init_cache 100) = Inr c \<and>
     get_stats c = Inr st \<and> hits c = 3 \<and> misses c = 1 \<and> stat_hit_rate st = 3 / 4"
proof -
  from get_stats_hit_rate [of "\<lambda>s. s"
      "[Set ''A'' (JObj []) (1::nat), Get ''A'' (JObj []), Get ''A'' (JObj []),
        Get ''A'' (JObj []), Get ''B'' (JObj [])]" 100]
  obtain c st where "run_cache (\<lambda>s. s)
       [Set ''A'' (JObj []) (1::nat), Get ''A'' (JObj []), Get ''A'' (JObj []),
        Get ''A'' (JObj []), Get ''B'' (JObj [])] (init_cache 100) = Inr c"
    and "get_stats c = Inr st"
    and "stat_hit_rate st =
       (if hits c = 0 \<and> misses c = 0 then 0
        else real_of_int (hits c) / real_of_int (hits c + misses c))"
    by blast
  with example_run show ?thesis by (auto simp del: run_cache.simps)
qed

lemma lru_example:
  assumes "generate_key H qa sa \<noteq> generate_key H qb sb"
    and "generate_key H qa sa \<noteq> generate_key H qc sc"
    and "generate_key H qb sb \<noteq> generate_key H qc sc"
  shows "run_cache H [Set qa sa ra, Set qb sb rb, Get qa sa, Set qc sc rc] (init_cache 2) =
     Inr \<lparr>max_size = 2,
          cache = [(generate_key H qa sa, ra), (generate_key H qc sc, rc)],
          hits = 1, misses = 0\<rparr>"
  using assms
  by (simp add: init_cache_def set_cache_def get_cache_def od_contains_def od_setitem_def
      move_to_end_def od_getitem_def popitem_first_def Let_def)

text \<open>
  Claim C1.  A cache constructed with a capacity \<open>n \<ge> 0\<close> never raises and never
  holds more than \<open>n\<close> entries, after any sequence of calls.  In every state so
  reached: storing a new key appends it as most recently used and, when the cache was
  full, drops exactly the first entry of the recency order (the least recently used
  one); storing or reading a present key moves that key to the most recently used end
  and evicts nothing; reading an absent key changes only the miss counter.  With
  capacity 2, \<^verbatim>\<open>set(A); set(B); get(A); set(C)\<close> leaves exactly A and C, for any
  three entries with different keys.
\<close>

theorem cache_capacity_lru:
  fixes ops :: "'v cache_call list"
  assumes "0 \<le> n"
  shows "\<exists>c. run_cache H ops (init_cache n) = Inr c \<and> max_size c = n \<and>
       int (length (cache c)) \<le> n \<and>
       (\<forall>q s r. \<not> od_contains (generate_key H q s) (cache c) \<longrightarrow>
          set_cache H q s r c =
            Inr (c\<lparr>cache := (if int (length (cache c)) < n
                              then cache c @ [(generate_key H q s, r)]
                              else tl (cache c @ [(generate_key H q s, r)]))\<rparr>) \<and>
          get_cache H q s c = Inr (None, c\<lparr>misses := misses c + 1\<rparr>)) \<and>
       (\<forall>q s r. od_contains (generate_key H q s) (cache c) \<longrightarrow>
          set_cache H q s r c =
            Inr (c\<lparr>cache := filter (\<lambda>kv. fst kv \<noteq> generate_key H q s) (cache c)
                              @ [(generate_key H q s, r)]\<rparr>) \<and>
          (\<exists>v. map_of (cache c) (generate_key H q s) = Some v \<and>
             get_cache H q s c =
               Inr (Some v, c\<lparr>hits := hits c + 1,
                      cache := filter (\<lambda>kv. fst kv \<noteq> generate_key H q s) (cache c)
                               @ [(generate_key H q s, v)]\<rparr>))) \<and>
       (\<forall>qa sa ra qb sb rb qc sc rc.
          generate_key H qa sa \<noteq> generate_key H qb sb \<and>
          generate_key H qa sa \<noteq> generate_key H qc sc \<and>
          generate_key H qb sb \<noteq> generate_key H qc sc \<longrightarrow>
          run_cache H [Set qa sa ra, Set qb sb rb, Get qa sa, Set qc sc rc]
             (init_cache 2 :: 'v text2cypher_cache) =
            Inr \<lparr>max_size = 2,
                 cache = [(generate_key H qa sa, ra), (generate_key H qc sc, rc)],
                 hits = 1, misses = 0\<rparr>)"
proof -
  from run_cache_inv [OF cache_inv_init [OF assms], of H ops]
  obtain c :: "'v text2cypher_cache" where
    run: "run_cache H ops (init_cache n) = Inr c" and inv: "cache_inv c"
    and m: "max_size c = max_size (init_cache n :: 'v text2cypher_cache)"
    by blast
  from m have m': "max_size c = n" by (simp add: init_cache_def)
  from inv have d: "distinct (map fst (cache c))" and l: "int (length (cache c)) \<le> max_size c"
    by (simp_all add: cache_inv_def)
  have absent: "set_cache H q s r c =
            Inr (c\<lparr>cache := (if int (length (cache c)) < n
                              then cache c @ [(generate_key H q s, r)]
                              else tl (cache c @ [(generate_key H q s, r)]))\<rparr>) \<and>
          get_cache H q s c = Inr (None, c\<lparr>misses := misses c + 1\<rparr>)"
    if "\<not> od_contains (generate_key H q s) (cache c)" for q s r
    using that l m' by (simp add: set_cache_absent get_cache_absent)
  have present: "set_cache H q s r c =
            Inr (c\<lparr>cache := filter (\<lambda>kv. fst kv \<noteq> generate_key H q s) (cache c)
                              @ [(generate_key H q s, r)]\<rparr>) \<and>
          (\<exists>v. map_of (cache c) (generate_key H q s) = Some v \<and>
             get_cache H q s c =
               Inr (Some v, c\<lparr>hits := hits c + 1,
                      cache := filter (\<lambda>kv. fst kv \<noteq> generate_key H q s) (cache c)
                               @ [(generate_key H q s, v)]\<rparr>))"
    if "od_contains (generate_key H q s) (cache c)" for q s r
    using set_cache_present [OF that d l] get_cache_present [OF that] by simp
  from l m' have l': "int (length (cache c)) \<le> n" by simp
  have A: "\<forall>q s r. \<not> od_contains (generate_key H q s) (cache c) \<longrightarrow>
          set_cache H q s r c =
            Inr (c\<lparr>cache := (if int (length (cache c)) < n
                              then cache c @ [(generate_key H q s, r)]
                              else tl (cache c @ [(generate_key H q s, r)]))\<rparr>) \<and>
          get_cache H q s c = Inr (None, c\<lparr>misses := misses c + 1\<rparr>)"
    by (intro allI impI, rule absent)
  have P: "\<forall>q s r. od_contains (generate_key H q s) (cache c) \<longrightarrow>
          set_cache H q s r c =
            Inr (c\<lparr>cache := filter (\<lambda>kv. fst kv \<noteq> generate_key H q s) (cache c)
                              @ [(generate_key H q s, r)]\<rparr>) \<and>
          (\<exists>v. map_of (cache c) (generate_key H q s) = Some v \<and>
             get_cache H q s c =
               Inr (Some v, c\<lparr>hits := hits c + 1,
                      cache := filter (\<lambda>kv. fst kv \<noteq> generate_key H q s) (cache c)
                               @ [(generate_key H q s, v)]\<rparr>))"
    by (intro allI impI, rule present)
  have E: "\<forall>qa sa ra qb sb rb qc sc rc.
          generate_key H qa sa \<noteq> generate_key H qb sb \<and>
          generate_key H qa sa \<noteq> generate_key H qc sc \<and>
          generate_key H qb sb \<noteq> generate_key H qc sc \<longrightarrow>
          run_cache H [Set qa sa ra, Set qb sb rb, Get qa sa, Set qc sc rc]
             (init_cache 2 :: 'v text2cypher_cache) =
            Inr \<lparr>max_size = 2,
                 cache = [(generate_key H qa sa, ra), (generate_key H qc sc, rc)],
                 hits = 1, misses = 0\<rparr>"
    by (intro allI impI, elim conjE, rule lru_example)
  show ?thesis
    by (intro exI [of _ c] conjI) (fact run m' l' A P E)+
qed

text \<open>The run of the example, with the identity in place of the digest.\<close>

theorem cache_capacity_lru_witness:
  "(0::int) \<le> 2 \<and>
   (\<exists>c. run_cache (\<lambda>s. s)
          [Set ''A'' (JObj []) (1::nat), Set ''B'' (JObj []) 2, Get ''A'' (JObj []),
           Set ''C'' (JObj []) 3] (init_cache 2) = Inr c \<and>
        int (length (cache c)) \<le> 2 \<and>
        cache c = [(''A_{}'', 1), (''C_{}'', 3)])"
proof -
  have h: "(0::int) \<le> 2" by simp
  have run: "run_cache (\<lambda>s. s)
          [Set ''A'' (JObj []) (1::nat), Set ''B'' (JObj []) 2, Get ''A'' (JObj []),
           Set ''C'' (JObj []) 3] (init_cache 2) =
      Inr \<lparr>max_size = 2, cache = [(''A_{}'', 1), (''C_{}'', 3)], hits = 1, misses = 0\<rparr>"
    by (simp add: init_cache_def set_cache_def get_cache_def od_contains_def od_setitem_def
        move_to_end_def od_getitem_def popitem_first_def Let_def)
  from cache_capacity_lru [OF h, of "\<lambda>s. s"
      "[Set ''A'' (JObj []) (1::nat), Set ''B'' (JObj []) 2, Get ''A'' (JObj []),
        Set ''C'' (JObj []) 3]"]
  obtain c where "run_cache (\<lambda>s. s)
          [Set ''A'' (JObj []) (1::nat), Set ''B'' (JObj []) 2, Get ''A'' (JObj []),
           Set ''C'' (JObj []) 3] (init_cache 2) = Inr c" and "int (length (cache c)) \<le> 2"
    by blast
  with run show ?thesis by (auto simp del: run_cache.simps)
qed

subsection \<open>The cache key\<close>

lemma sorted_keys_unique:
  fixes xs ys :: "(string \<times> 'a) list"
  assumes "distinct (map fst xs)" and "distinct (map fst ys)"
    and "set (map fst xs) = set (map fst ys)"
  shows "map fst (sort_key fst xs) = map fst (sort_key fst ys)"
proof -
  have d: "distinct (map fst (sort_key fst zs))" if "distinct (map fst zs)"
    for zs :: "(string \<times> 'a) list"
  proof -
    from that have "distinct zs" and "inj_on fst (set zs)"
      by (simp_all add: distinct_map)
    then have "distinct (sort_key fst zs)" and "inj_on fst (set (sort_key fst zs))"
      by simp_all
    then show ?thesis by (simp add: distinct_map)
  qed
  have "sorted (map fst (sort_key fst xs))" and "sorted (map fst (sort_key fst ys))"
    by (rule sorted_sort_key)+
  moreover have "distinct (map fst (sort_key fst xs))" and "distinct (map fst (sort_key fst ys))"
    by (simp_all add: d assms(1,2))
  moreover have "set (map fst (sort_key fst xs)) = set (map fst (sort_key fst ys))"
    using assms(3) by simp
  ultimately show ?thesis
    by (intro sorted_distinct_set_unique)
qed

lemma dumps_same_mapping:
  "same_mapping a b \<Longrightarrow> dumps a = dumps b"
proof (induction a arbitrary: b rule: dumps.induct)
  case (5 xs)
  from "5.prems" obtain ys where b: "b = JArr ys" and len: "length xs = length ys"
    and all: "list_all (\<lambda>(x, y). same_mapping x y) (zip xs ys)"
    by (cases b) simp_all
  have "map dumps xs = map dumps ys"
  proof (rule nth_equalityI)
    show "length (map dumps xs) = length (map dumps ys)" using len by simp
  next
    fix i assume "i < length (map dumps xs)"
    then have i: "i < length xs" by simp
    with len have "(xs ! i, ys ! i) \<in> set (zip xs ys)"
      by (auto simp: set_zip)
    with all have "same_mapping (xs ! i) (ys ! i)"
      by (auto simp: list_all_iff)
    moreover from i have "xs ! i \<in> set xs" by simp
    ultimately have "dumps (xs ! i) = dumps (ys ! i)" by (rule "5.IH" [rotated])
    with i len show "map dumps xs ! i = map dumps ys ! i" by simp
  qed
  with b show ?case by simp
next
  case (6 xs)
  from "6.prems" obtain ys where b: "b = JObj ys"
    and dx: "distinct (map fst xs)" and dy: "distinct (map fst ys)"
    and keys: "set (map fst xs) = set (map fst ys)"
    and all: "list_all (\<lambda>kv. case map_of ys (fst kv) of
                           None \<Rightarrow> False
                         | Some v \<Rightarrow> same_mapping (snd kv) v) xs"
    by (cases b) simp_all
  let ?sx = "sort_key fst xs" and ?sy = "sort_key fst ys"
  let ?g = "\<lambda>kv. encode_basestring_ascii (fst kv) @ '': '' @ dumps (snd kv)"
  have fsts: "map fst ?sx = map fst ?sy"
    using dx dy keys by (rule sorted_keys_unique)
  then have len: "length ?sx = length ?sy"
    by (metis length_map)
  have "map ?g ?sx = map ?g ?sy"
  proof (rule nth_equalityI)
    show "length (map ?g ?sx) = length (map ?g ?sy)" using len by simp
  next
    fix i assume "i < length (map ?g ?sx)"
    then have i: "i < length ?sx" by simp
    with len have i': "i < length ?sy" by simp
    from i have mx: "?sx ! i \<in> set ?sx" by (rule nth_mem)
    then have inx: "?sx ! i \<in> set xs" by simp
    from i' have "?sy ! i \<in> set ?sy" by (rule nth_mem)
    then have iny: "?sy ! i \<in> set ys" by simp
    from fsts i i' have k: "fst (?sx ! i) = fst (?sy ! i)"
      by (metis nth_map)
    from iny dy have "map_of ys (fst (?sy ! i)) = Some (snd (?sy ! i))"
      by (metis map_of_is_SomeI prod.collapse)
    with k have "map_of ys (fst (?sx ! i)) = Some (snd (?sy ! i))" by simp
    moreover from all inx have
      "case map_of ys (fst (?sx ! i)) of None \<Rightarrow> False | Some v \<Rightarrow> same_mapping (snd (?sx ! i)) v"
      by (auto simp: list_all_iff)
    ultimately have "same_mapping (snd (?sx ! i)) (snd (?sy ! i))" by simp
    with mx have "dumps (snd (?sx ! i)) = dumps (snd (?sy ! i))" by (rule "6.IH")
    with k i i' show "map ?g ?sx ! i = map ?g ?sy ! i" by simp
  qed
  with b show ?case by simp
qed simp_all

text \<open>
  Claim C5.  The key is a function of the question and of the schema up to the order of
  its fields: two schemas that are the same mapping, with the fields of their
  dictionaries in any order at any depth, have the same key-sorted serialization and so
  the same cache key, for every question.
\<close>

theorem generate_key_order_independent:
  assumes "same_mapping schema1 schema2"
  shows "dumps schema1 = dumps schema2 \<and>
         generate_key H question schema1 = generate_key H question schema2"
  using dumps_same_mapping [OF assms] by (simp add: generate_key_def)

text \<open>A schema of one node table, with the fields in two orders at both levels.\<close>

theorem generate_key_order_independent_witness:
  "same_mapping
     (JObj [(''nodes'', JArr [JObj [(''label'', JStr ''Person''), (''properties'', JArr [])]]),
            (''edges'', JArr [])])
     (JObj [(''edges'', JArr []),
            (''nodes'', JArr [JObj [(''properties'', JArr []), (''label'', JStr ''Person'')]])]) \<and>
   generate_key (\<lambda>s. s) ''who knows whom''
     (JObj [(''nodes'', JArr [JObj [(''label'', JStr ''Person''), (''properties'', JArr [])]]),
            (''edges'', JArr [])]) =
   generate_key (\<lambda>s. s) ''who knows whom''
     (JObj [(''edges'', JArr []),
            (''nodes'', JArr [JObj [(''properties'', JArr []), (''label'', JStr ''Person'')]])])"
proof -
  have h: "same_mapping
     (JObj [(''nodes'', JArr [JObj [(''label'', JStr ''Person''), (''properties'', JArr [])]]),
            (''edges'', JArr [])])
     (JObj [(''edges'', JArr []),
            (''nodes'', JArr [JObj [(''properties'', JArr []), (''label'', JStr ''Person'')]])])"
    by code_simp
  from generate_key_order_independent [OF h, of "\<lambda>s. s" "''who knows whom''"] h
  show ?thesis by (simp del: same_mapping.simps dumps.simps)
qed

lemma dumps_example:
  "dumps (JObj [(''nodes'', JArr [JObj [(''label'', JStr ''Person''), (''properties'', JArr [])]]),
                (''edges'', JArr [])]) =
   ''{\"edges\": [], \"nodes\": [{\"label\": \"Person\", \"properties\": []}]}''"
  by code_simp

subsection \<open>The validator\<close>

lemma validate_syntax_unfold:
  "validate_syntax query conn =
     ((case respond conn (calls conn) (''EXPLAIN '' @ query) of
         Returned \<Rightarrow> (True, None)
       | Raised e \<Rightarrow> (False, Some e)),
      conn\<lparr>calls := calls conn @ [''EXPLAIN '' @ query]\<rparr>)"
  by (simp add: validate_syntax_def execute_def Let_def split: exec_result.split)

text \<open>
  Claim C6.  \<^verbatim>\<open>validate_syntax\<close> makes exactly one call to the connection, the query
  prefixed with \<^verbatim>\<open>EXPLAIN\<close>; when the call returns the outcome is \<open>(True, None)\<close>,
  when it raises the exception is caught and the outcome is \<open>(False, message)\<close>.  The
  function itself always returns.
\<close>

theorem validate_syntax_outcome:
  "calls (snd (validate_syntax query conn)) = calls conn @ [''EXPLAIN '' @ query] \<and>
   respond (snd (validate_syntax query conn)) = respond conn \<and>
   (respond conn (calls conn) (''EXPLAIN '' @ query) = Returned \<longrightarrow>
      fst (validate_syntax query conn) = (True, None)) \<and>
   (\<forall>e. respond conn (calls conn) (''EXPLAIN '' @ query) = Raised e \<longrightarrow>
      fst (validate_syntax query conn) = (False, Some e))"
  by (simp add: validate_syntax_unfold)

text \<open>A connection that accepts one query and rejects the rest.\<close>

theorem validate_syntax_outcome_witness:
  "fst (validate_syntax ''MATCH (n) RETURN n.name''
      \<lparr>respond = (\<lambda>h q. if q = ''EXPLAIN MATCH (n) RETURN n.name'' then Returned
                          else Raised ''Parser exception''),
       calls = []\<rparr>) = (True, None) \<and>
   fst (validate_syntax ''MATCH (n RETURN''
      \<lparr>respond = (\<lambda>h q. if q = ''EXPLAIN MATCH (n) RETURN n.name'' then Returned
                          else Raised ''Parser exception''),
       calls = []\<rparr>) = (False, Some ''Parser exception'') \<and>
   calls (snd (validate_syntax ''MATCH (n RETURN''
      \<lparr>respond = (\<lambda>h q. if q = ''EXPLAIN MATCH (n) RETURN n.name'' then Returned
                          else Raised ''Parser exception''),
       calls = []\<rparr>)) = [''EXPLAIN MATCH (n RETURN'']"
  using validate_syntax_outcome [of "''MATCH (n) RETURN n.name''"
      "\<lparr>respond = (\<lambda>h q. if q = ''EXPLAIN MATCH (n) RETURN n.name'' then Returned
                          else Raised ''Parser exception''),
       calls = []\<rparr>"]
    validate_syntax_outcome [of "''MATCH (n RETURN''"
      "\<lparr>respond = (\<lambda>h q. if q = ''EXPLAIN MATCH (n) RETURN n.name'' then Returned
                          else Raised ''Parser exception''),
       calls = []\<rparr>"]
  by simp

text \<open>
  Claim C8.  On \<^verbatim>\<open>WHERE a.name = 'Einstein'\<close> the equality becomes the containment
  test on \<^verbatim>\<open>lower(a.name)\<close>; the literal keeps its capital letter.
\<close>

theorem post_process_einstein:
  "post_process (''WHERE a.name = 'Einstein'' @ [CHR 0x27]) =
     Inr (''WHERE lower(a.name) CONTAINS 'Einstein'' @ [CHR 0x27])"
  by code_simp

lemma post_process_first_pass:
  "post_process ''MATCH (a) WHERE a.name = 'Ann' AND a.city = 'Rome' RETURN a.age'' =
     Inr ''MATCH (a) WHERE lower(a.name) CONTAINS 'Ann' AND a.city = 'Rome' RETURN a.age''"
  by code_simp

lemma post_process_second_pass:
  "post_process ''MATCH (a) WHERE lower(a.name) CONTAINS 'Ann' AND a.city = 'Rome' RETURN a.age'' =
     Inr ''MATCH (a) WHERE lower(a.name) CONTAINS 'Ann' AND lower(a.city) CONTAINS 'Rome' RETURN a.age''"
  by code_simp

text \<open>
  Claim C2.  \<^verbatim>\<open>post_process\<close> is not idempotent.  With two comparisons in the
  query, the first pass rewrites the first one only: the guard against wrapping twice
  reads the 20 characters before the second match's old position in the string already
  rewritten, and finds the \<^verbatim>\<open>lower(\<close> just inserted.  The second pass rewrites the
  other comparison.
\<close>

theorem post_process_not_idempotent:
  "post_process ''MATCH (a) WHERE a.name = 'Ann' AND a.city = 'Rome' RETURN a.age'' =
     Inr ''MATCH (a) WHERE lower(a.name) CONTAINS 'Ann' AND a.city = 'Rome' RETURN a.age'' \<and>
   post_process ''MATCH (a) WHERE lower(a.name) CONTAINS 'Ann' AND a.city = 'Rome' RETURN a.age'' =
     Inr ''MATCH (a) WHERE lower(a.name) CONTAINS 'Ann' AND lower(a.city) CONTAINS 'Rome' RETURN a.age'' \<and>
   post_process ''MATCH (a) WHERE lower(a.name) CONTAINS 'Ann' AND a.city = 'Rome' RETURN a.age'' \<noteq>
     Inr ''MATCH (a) WHERE lower(a.name) CONTAINS 'Ann' AND a.city = 'Rome' RETURN a.age''"
  by (simp add: post_process_first_pass post_process_second_pass)

subsection \<open>The refinement loop\<close>

lemma post_process_empty_item: "post_process ''MATCH (n) RETURN n.name, LIMIT 5'' = Inl IndexError"
  by code_simp

text \<open>
  Claim C4.  \<^verbatim>\<open>refine\<close> raises on some inputs.  With \<open>max_attempts = 0\<close> the loop
  body never runs and the final \<^verbatim>\<open>return processed_query, ...\<close> reads an unbound
  variable, whatever the query and the repair function.  With the default three
  attempts, a query whose \<^verbatim>\<open>RETURN\<close> clause has an empty item (here after a
  trailing comma) raises \<^verbatim>\<open>IndexError\<close> inside \<^verbatim>\<open>post_process\<close>, before
  any validation.
\<close>

theorem refine_raises:
  "fst (refine 0 query repair conn) = Inl UnboundLocalError \<and>
   fst (refine 3 ''MATCH (n) RETURN n.name, LIMIT 5'' repair conn) = Inl IndexError"
  by (simp add: refine_def post_process_empty_item upt_rec)

lemma heuristic_identity:
  assumes "\<not> contains (lower q) ''apoc''" and "\<not> contains (lower e) ''semicolon''"
  shows "apply_heuristic_repairs q e = q"
  using assms by (simp add: apply_heuristic_repairs_def Let_def)

lemma failed_attempt_heuristic:
  assumes apoc: "\<not> contains (lower q) ''apoc''"
    and msgs: "\<forall>h x m. respond conn h x = Raised m \<longrightarrow> \<not> contains (lower m) ''semicolon''"
    and step: "failed_attempt None (q, conn) = Some (q', conn')"
  shows "q' = q \<and> respond conn' = respond conn \<and>
    (\<exists>p. post_process q = Inr p \<and> calls conn' = calls conn @ [''EXPLAIN '' @ p])"
proof (cases "post_process q")
  case (Inl e)
  with step show ?thesis by (simp add: failed_attempt_def)
next
  case (Inr p)
  show ?thesis
  proof (cases "respond conn (calls conn) (''EXPLAIN '' @ p)")
    case Returned
    with step Inr show ?thesis
      by (simp add: failed_attempt_def validate_syntax_unfold)
  next
    case (Raised m)
    with msgs have "\<not> contains (lower m) ''semicolon''" by blast
    with apoc have "apply_heuristic_repairs q m = q" by (rule heuristic_identity)
    with step Inr Raised show ?thesis
      by (auto simp: failed_attempt_def validate_syntax_unfold next_candidate_def)
  qed
qed

lemma failed_attempts_heuristic:
  assumes apoc: "\<not> contains (lower q) ''apoc''"
    and msgs: "\<forall>h x m. respond conn h x = Raised m \<longrightarrow> \<not> contains (lower m) ''semicolon''"
    and run: "failed_attempts None k (q, conn) = Some (q', conn')"
  shows "q' = q \<and> (\<forall>p. post_process q = Inr p \<longrightarrow>
           calls conn' = calls conn @ replicate k (''EXPLAIN '' @ p))"
  using msgs run
proof (induction k arbitrary: conn)
  case 0
  then show ?case by simp
next
  case (Suc k)
  from Suc.prems(2) obtain q1 conn1 where
    one: "failed_attempt None (q, conn) = Some (q1, conn1)"
    and rest: "failed_attempts None k (q1, conn1) = Some (q', conn')"
    by (auto split: option.splits)
  from failed_attempt_heuristic [OF apoc Suc.prems(1) one] obtain p where
    q1: "q1 = q" and r: "respond conn1 = respond conn"
    and p: "post_process q = Inr p" and c: "calls conn1 = calls conn @ [''EXPLAIN '' @ p]"
    by blast
  from Suc.prems(1) r have "\<forall>h x m. respond conn1 h x = Raised m \<longrightarrow> \<not> contains (lower m) ''semicolon''"
    by simp
  from Suc.IH [OF this] rest q1 have
    "q' = q \<and> (\<forall>p. post_process q = Inr p \<longrightarrow>
           calls conn' = calls conn1 @ replicate k (''EXPLAIN '' @ p))"
    by simp
  with p c show ?case by (simp add: replicate_app_Cons_same)
qed

lemma refine_loop_heuristic:
  assumes apoc: "\<not> contains (lower q) ''apoc''"
    and pp: "post_process q = Inr p"
    and msgs: "\<forall>h x m. respond conn h x = Raised m \<longrightarrow> \<not> contains (lower m) ''semicolon''"
    and start: "as \<noteq> [] \<or> proc = Some p"
  shows "\<exists>k valid hist'.
           k \<le> length as \<and> (as \<noteq> [] \<longrightarrow> 0 < k) \<and> (valid \<longrightarrow> 0 < k) \<and>
           refine_loop None as q hist proc conn =
             (Inr (p, valid, hist'),
              conn\<lparr>calls := calls conn @ replicate k (''EXPLAIN '' @ p)\<rparr>) \<and>
           length hist' = length hist + (if valid then k - 1 else k) \<and>
           (\<not> valid \<longrightarrow> k = length as)"
  using msgs start
proof (induction as arbitrary: hist proc conn)
  case Nil
  then have "refine_loop None [] q hist proc conn =
      (Inr (p, False, hist), conn\<lparr>calls := calls conn @ replicate 0 (''EXPLAIN '' @ p)\<rparr>)"
    by simp
  then show ?case by (intro exI [of _ 0] exI [of _ False] exI [of _ hist]) simp
next
  case (Cons a as)
  let ?e = "''EXPLAIN '' @ p"
  let ?conn1 = "conn\<lparr>calls := calls conn @ [?e]\<rparr>"
  show ?case
  proof (cases "respond conn (calls conn) ?e")
    case Returned
    then have "refine_loop None (a # as) q hist proc conn =
        (Inr (p, True, hist), conn\<lparr>calls := calls conn @ replicate 1 ?e\<rparr>)"
      by (simp add: pp validate_syntax_unfold)
    then show ?thesis
      by (intro exI [of _ 1] exI [of _ True] exI [of _ hist]) simp
  next
    case (Raised m)
    with Cons.prems(1) have "\<not> contains (lower m) ''semicolon''" by blast
    with apoc have same: "apply_heuristic_repairs q m = q" by (rule heuristic_identity)
    let ?hist1 = "hist @ [''Attempt '' @ str_nat (a + 1) @ '': '' @ format_msg (Some m)]"
    from Raised same have loop: "refine_loop None (a # as) q hist proc conn =
        refine_loop None as q ?hist1 (Some p) ?conn1"
      by (simp add: pp validate_syntax_unfold next_candidate_def Let_def)
    from Cons.prems(1) have
      "\<forall>h x m. respond ?conn1 h x = Raised m \<longrightarrow> \<not> contains (lower m) ''semicolon''"
      by simp
    from Cons.IH [OF this, of "Some p" ?hist1] obtain k valid hist' where
      k: "k \<le> length as" and v: "valid \<longrightarrow> 0 < k"
      and r: "refine_loop None as q ?hist1 (Some p) ?conn1 =
             (Inr (p, valid, hist'), ?conn1\<lparr>calls := calls ?conn1 @ replicate k ?e\<rparr>)"
      and l: "length hist' = length ?hist1 + (if valid then k - 1 else k)"
      and n: "\<not> valid \<longrightarrow> k = length as"
      by auto
    have c: "?conn1\<lparr>calls := calls ?conn1 @ replicate k ?e\<rparr> =
        conn\<lparr>calls := calls conn @ replicate (Suc k) ?e\<rparr>"
      by simp
    from loop r c have "refine_loop None (a # as) q hist proc conn =
        (Inr (p, valid, hist'), conn\<lparr>calls := calls conn @ replicate (Suc k) ?e\<rparr>)"
      by (simp only:)
    moreover from l v have "length hist' = length hist + (if valid then Suc k - 1 else Suc k)"
      by auto
    ultimately show ?thesis
      using k n by (intro exI [of _ "Suc k"] exI [of _ valid] exI [of _ hist']) simp
  qed
qed

lemma refine_heuristic:
  assumes apoc: "\<not> contains (lower q) ''apoc''"
    and pp: "post_process q = Inr p"
    and msgs: "\<forall>h x m. respond conn h x = Raised m \<longrightarrow> \<not> contains (lower m) ''semicolon''"
    and pos: "0 < max_attempts"
  shows "\<exists>n valid history.
           0 < n \<and> n \<le> nat max_attempts \<and>
           refine max_attempts q None conn =
             (Inr (p, valid, history),
              conn\<lparr>calls := calls conn @ replicate n (''EXPLAIN '' @ p)\<rparr>) \<and>
           length history = (if valid then n - 1 else n) \<and>
           (\<not> valid \<longrightarrow> n = nat max_attempts)"
proof -
  let ?as = "[0..<nat max_attempts]"
  from pos have ne: "?as \<noteq> []" by simp
  then have "?as \<noteq> [] \<or> None = Some p" by simp
  from refine_loop_heuristic [OF apoc pp msgs this, of "[]"] obtain k valid hist' where
    k: "k \<le> length ?as" and z: "?as \<noteq> [] \<longrightarrow> 0 < k"
    and r: "refine_loop None ?as q [] None conn =
             (Inr (p, valid, hist'),
              conn\<lparr>calls := calls conn @ replicate k (''EXPLAIN '' @ p)\<rparr>)"
    and l: "length hist' = length ([] :: string list) + (if valid then k - 1 else k)"
    and n: "\<not> valid \<longrightarrow> k = length ?as"
    by blast
  from z ne have "0 < k" by simp
  moreover from k have "k \<le> nat max_attempts" by simp
  moreover from r have "refine max_attempts q None conn =
             (Inr (p, valid, hist'),
              conn\<lparr>calls := calls conn @ replicate k (''EXPLAIN '' @ p)\<rparr>)"
    by (simp only: refine_def)
  moreover from l have "length hist' = (if valid then k - 1 else k)" by simp
  moreover from n have "\<not> valid \<longrightarrow> k = nat max_attempts" by simp
  ultimately show ?thesis by blast
qed

text \<open>
  Claim C10.  When the query does not mention \<^verbatim>\<open>apoc\<close> and the message does not
  mention \<^verbatim>\<open>semicolon\<close> (both case-insensitively), the heuristic repair returns
  the query unchanged.  So \<^verbatim>\<open>refine\<close> without a repair function, on a connection
  whose messages never mention \<^verbatim>\<open>semicolon\<close>, normalizes and validates the same
  candidate at every attempt: it makes \<open>k \<ge> 1\<close> calls, each with the one normalized
  query, stops at the first call that is accepted or after all \<open>max_attempts\<close> calls,
  and returns that normalized query.  The candidate after any number of failed attempts
  is the initial query.
\<close>

theorem heuristic_repairs_identity:
  assumes "\<not> contains (lower q) ''apoc''"
  shows "(\<not> contains (lower e) ''semicolon'' \<longrightarrow>
           apply_heuristic_repairs q e = q \<and> next_candidate None q (Some e) = Inr q) \<and>
         ((\<forall>h x m. respond conn h x = Raised m \<longrightarrow> \<not> contains (lower m) ''semicolon'') \<and>
          post_process q = Inr p \<and> 0 < max_attempts \<longrightarrow>
            (\<exists>n valid history.
               0 < n \<and> n \<le> nat max_attempts \<and>
               refine max_attempts q None conn =
                 (Inr (p, valid, history),
                  conn\<lparr>calls := calls conn @ replicate n (''EXPLAIN '' @ p)\<rparr>) \<and>
               length history = (if valid then n - 1 else n) \<and>
               (\<not> valid \<longrightarrow> n = nat max_attempts))) \<and>
         ((\<forall>h x m. respond conn h x = Raised m \<longrightarrow> \<not> contains (lower m) ''semicolon'') \<and>
          failed_attempts None k (q, conn) = Some (q', conn') \<longrightarrow>
            q' = q \<and> (\<forall>p. post_process q = Inr p \<longrightarrow>
              calls conn' = calls conn @ replicate k (''EXPLAIN '' @ p)))"
proof (intro conjI impI)
  assume "\<not> contains (lower e) ''semicolon''"
  with assms have "apply_heuristic_repairs q e = q" by (rule heuristic_identity)
  then show "apply_heuristic_repairs q e = q" and "next_candidate None q (Some e) = Inr q"
    by (simp_all add: next_candidate_def)
next
  assume "(\<forall>h x m. respond conn h x = Raised m \<longrightarrow> \<not> contains (lower m) ''semicolon'') \<and>
          post_process q = Inr p \<and> 0 < max_attempts"
  then show "\<exists>n valid history.
               0 < n \<and> n \<le> nat max_attempts \<and>
               refine max_attempts q None conn =
                 (Inr (p, valid, history),
                  conn\<lparr>calls := calls conn @ replicate n (''EXPLAIN '' @ p)\<rparr>) \<and>
               length history = (if valid then n - 1 else n) \<and>
               (\<not> valid \<longrightarrow> n = nat max_attempts)"
    by (intro refine_heuristic [OF assms]) simp_all
next
  assume a: "(\<forall>h x m. respond conn h x = Raised m \<longrightarrow> \<not> contains (lower m) ''semicolon'') \<and>
          failed_attempts None k (q, conn) = Some (q', conn')"
  from a have m: "\<forall>h x m. respond conn h x = Raised m \<longrightarrow> \<not> contains (lower m) ''semicolon''"
    and f: "failed_attempts None k (q, conn) = Some (q', conn')"
    by simp_all
  from failed_attempts_heuristic [OF assms m f]
  show "q' = q" and "\<forall>p. post_process q = Inr p \<longrightarrow>
              calls conn' = calls conn @ replicate k (''EXPLAIN '' @ p)"
    by simp_all
qed

lemma post_process_return_1: "post_process ''RETURN 1'' = Inr ''RETURN 1''"
  by code_simp

lemma no_apoc_return_1: "\<not> contains (lower ''RETURN 1'') ''apoc''"
  by code_simp

lemma no_semicolon_parser: "\<not> contains (lower ''Parser exception'') ''semicolon''"
  by code_simp

text \<open>Two attempts on \<^verbatim>\<open>RETURN 1\<close> against a connection that rejects everything.\<close>

theorem heuristic_repairs_identity_witness:
  "\<not> contains (lower ''RETURN 1'') ''apoc'' \<and>
   \<not> contains (lower ''Parser exception'') ''semicolon'' \<and>
   apply_heuristic_repairs ''RETURN 1'' ''Parser exception'' = ''RETURN 1'' \<and>
   post_process ''RETURN 1'' = Inr ''RETURN 1'' \<and> (0::int) < 2 \<and>
   (\<exists>history.
      refine 2 ''RETURN 1'' None (rejecting ''Parser exception'') =
        (Inr (''RETURN 1'', False, history),
         rejecting ''Parser exception''\<lparr>calls := [''EXPLAIN RETURN 1'', ''EXPLAIN RETURN 1'']\<rparr>) \<and>
      length history = 2) \<and>
   failed_attempts None 2 (''RETURN 1'', rejecting ''Parser exception'') =
     Some (''RETURN 1'',
           rejecting ''Parser exception''\<lparr>calls := [''EXPLAIN RETURN 1'', ''EXPLAIN RETURN 1'']\<rparr>) \<and>
   calls (rejecting ''Parser exception''\<lparr>calls := [''EXPLAIN RETURN 1'', ''EXPLAIN RETURN 1'']\<rparr>) =
     calls (rejecting ''Parser exception'') @ replicate 2 ''EXPLAIN RETURN 1''"
proof -
  have run: "failed_attempts None 2 (''RETURN 1'', rejecting ''Parser exception'') =
     Some (''RETURN 1'',
           rejecting ''Parser exception''\<lparr>calls := [''EXPLAIN RETURN 1'', ''EXPLAIN RETURN 1'']\<rparr>)"
    by (simp add: numeral_2_eq_2 failed_attempt_def post_process_return_1 validate_syntax_unfold
        rejecting_def next_candidate_def heuristic_identity [OF no_apoc_return_1 no_semicolon_parser])
  have msgs: "\<forall>h x m. respond (rejecting ''Parser exception'') h x = Raised m \<longrightarrow>
      \<not> contains (lower m) ''semicolon''"
    using no_semicolon_parser by (simp add: rejecting_def)
  have loop: "\<exists>history.
      refine 2 ''RETURN 1'' None (rejecting ''Parser exception'') =
        (Inr (''RETURN 1'', False, history),
         rejecting ''Parser exception''\<lparr>calls := [''EXPLAIN RETURN 1'', ''EXPLAIN RETURN 1'']\<rparr>) \<and>
      length history = 2"
    by (simp add: refine_def upt_rec post_process_return_1 validate_syntax_unfold
        rejecting_def next_candidate_def Let_def
        heuristic_identity [OF no_apoc_return_1 no_semicolon_parser])
  from heuristic_repairs_identity [OF no_apoc_return_1,
      where e = "''Parser exception''" and conn = "rejecting ''Parser exception''"
        and p = "''RETURN 1''" and max_attempts = 2 and k = 2 and q' = "''RETURN 1''"
        and conn' = "rejecting ''Parser exception''\<lparr>calls := [''EXPLAIN RETURN 1'', ''EXPLAIN RETURN 1'']\<rparr>"]
    no_apoc_return_1 no_semicolon_parser run msgs post_process_return_1 loop
  show ?thesis by (simp del: failed_attempts.simps)
qed

lemma failed_attemptD:
  assumes "failed_attempt repair (q, conn) = Some (q1, conn1)"
  shows "\<exists>p m. post_process q = Inr p \<and> validate_syntax p conn = ((False, m), conn1) \<and>
           next_candidate repair q m = Inr q1 \<and> calls conn1 = calls conn @ [''EXPLAIN '' @ p]"
proof (cases "post_process q")
  case (Inl e)
  with assms show ?thesis by (simp add: failed_attempt_def)
next
  case (Inr p)
  obtain v m c where vs: "validate_syntax p conn = ((v, m), c)"
    by (metis surj_pair)
  with assms Inr have "\<not> v" and nc: "next_candidate repair q m = Inr q1" and c: "c = conn1"
    by (auto simp: failed_attempt_def split: if_splits sum.splits)
  moreover from vs have "calls c = calls conn @ [''EXPLAIN '' @ p]"
    by (auto simp: validate_syntax_unfold)
  ultimately show ?thesis using Inr vs by auto
qed

lemma refine_loop_failed_step:
  assumes "failed_attempt repair (q, conn) = Some (q1, conn1)"
  shows "\<exists>p entry. post_process q = Inr p \<and> calls conn1 = calls conn @ [''EXPLAIN '' @ p] \<and>
           refine_loop repair (a # as) q hist proc conn =
             refine_loop repair as q1 (hist @ [entry]) (Some p) conn1"
proof -
  from failed_attemptD [OF assms] obtain p m where
    p: "post_process q = Inr p" and v: "validate_syntax p conn = ((False, m), conn1)"
    and n: "next_candidate repair q m = Inr q1"
    and c: "calls conn1 = calls conn @ [''EXPLAIN '' @ p]"
    by blast
  have "refine_loop repair (a # as) q hist proc conn =
      refine_loop repair as q1
        (hist @ [''Attempt '' @ str_nat (a + 1) @ '': '' @ format_msg m]) (Some p) conn1"
    by (simp add: p v n Let_def)
  with p c show ?thesis by blast
qed

lemma refine_loop_exhausted:
  assumes "failed_attempts repair (length as) (q, conn) = Some (q', conn')" and "as \<noteq> []"
  shows "\<exists>c conn1 p hist'.
           failed_attempts repair (length as - 1) (q, conn) = Some (c, conn1) \<and>
           post_process c = Inr p \<and>
           refine_loop repair as q hist proc conn = (Inr (p, False, hist'), conn') \<and>
           length hist' = length hist + length as \<and>
           calls conn' = calls conn1 @ [''EXPLAIN '' @ p] \<and>
           length (calls conn') = length (calls conn) + length as"
  using assms
proof (induction as arbitrary: q conn hist proc)
  case Nil
  then show ?case by simp
next
  case (Cons a as)
  from Cons.prems(1) obtain q1 conn1 where
    one: "failed_attempt repair (q, conn) = Some (q1, conn1)"
    and rest: "failed_attempts repair (length as) (q1, conn1) = Some (q', conn')"
    by (auto split: option.splits)
  from refine_loop_failed_step [OF one, of a as hist proc] obtain p entry where
    p: "post_process q = Inr p" and c1: "calls conn1 = calls conn @ [''EXPLAIN '' @ p]"
    and loop: "refine_loop repair (a # as) q hist proc conn =
             refine_loop repair as q1 (hist @ [entry]) (Some p) conn1"
    by blast
  show ?case
  proof (cases as)
    case Nil
    with rest have "q1 = q'" "conn1 = conn'" by simp_all
    with Nil p c1 loop show ?thesis by simp
  next
    case (Cons b bs)
    then have ne: "as \<noteq> []" by simp
    from Cons.IH [OF rest ne, of "hist @ [entry]" "Some p"] obtain c conn2 p' hist' where
      fa: "failed_attempts repair (length as - 1) (q1, conn1) = Some (c, conn2)"
      and pp: "post_process c = Inr p'"
      and rl: "refine_loop repair as q1 (hist @ [entry]) (Some p) conn1 = (Inr (p', False, hist'), conn')"
      and lh: "length hist' = length (hist @ [entry]) + length as"
      and cc: "calls conn' = calls conn2 @ [''EXPLAIN '' @ p']"
      and lc: "length (calls conn') = length (calls conn1) + length as"
      by blast
    from fa one Cons have "failed_attempts repair (length (a # as) - 1) (q, conn) = Some (c, conn2)"
      by simp
    moreover from rl loop have
      "refine_loop repair (a # as) q hist proc conn = (Inr (p', False, hist'), conn')"
      by simp
    moreover from lh have "length hist' = length hist + length (a # as)" by simp
    moreover from lc c1 have "length (calls conn') = length (calls conn) + length (a # as)"
      by simp
    ultimately show ?thesis using pp cc by blast
  qed
qed

text \<open>
  With at least one attempt, the loop ends as the specification says.  When validation
  is reached and fails on each of the \<open>max_attempts \<ge> 1\<close> attempts, \<^verbatim>\<open>refine\<close>
  returns after exactly that many calls to the connection, with the flag false and one
  history entry per attempt.  The query it returns is the normalized form of the
  candidate of the last attempt, the very query of the last validation call; the
  candidate made by the last repair is not used.
\<close>

theorem refine_exhausted:
  assumes "0 < max_attempts"
    and "failed_attempts repair (nat max_attempts) (query, conn) = Some (q', conn')"
  shows "\<exists>c conn1 p history.
           failed_attempts repair (nat max_attempts - 1) (query, conn) = Some (c, conn1) \<and>
           post_process c = Inr p \<and>
           refine max_attempts query repair conn = (Inr (p, False, history), conn') \<and>
           int (length history) = max_attempts \<and>
           calls conn' = calls conn1 @ [''EXPLAIN '' @ p] \<and>
           int (length (calls conn')) = int (length (calls conn)) + max_attempts"
proof -
  let ?as = "[0..<nat max_attempts]"
  from assms(1) have ne: "?as \<noteq> []" by simp
  from assms(2) have "failed_attempts repair (length ?as) (query, conn) = Some (q', conn')"
    by simp
  from refine_loop_exhausted [OF this ne, of "[]" None] obtain c conn1 p history where
    "failed_attempts repair (length ?as - 1) (query, conn) = Some (c, conn1)"
    "post_process c = Inr p"
    "refine_loop repair ?as query [] None conn = (Inr (p, False, history), conn')"
    "length history = length ([] :: string list) + length ?as"
    "calls conn' = calls conn1 @ [''EXPLAIN '' @ p]"
    "length (calls conn') = length (calls conn) + length ?as"
    by blast
  with assms(1) show ?thesis
    by (auto simp: refine_def)
qed

lemma post_process_padded_2: "post_process ''RETURN 1  '' = Inr ''RETURN 1''"
  by code_simp

lemma post_process_padded_4: "post_process ''RETURN 1    '' = Inr ''RETURN 1''"
  by code_simp

lemma failed_attempt_padding:
  assumes "post_process q = Inr p"
  shows "failed_attempt (Some padding) (q, \<lparr>respond = (\<lambda>h q. Raised msg), calls = cs\<rparr>) =
     Some (q @ ''  '', \<lparr>respond = (\<lambda>h q. Raised msg), calls = cs @ [''EXPLAIN '' @ p]\<rparr>)"
  using assms
  by (simp add: failed_attempt_def validate_syntax_unfold next_candidate_def padding_def)

text \<open>
  Three attempts against a connection that rejects everything, with a repair function
  that pads the candidate: the query returned is \<^verbatim>\<open>RETURN 1\<close>, the normalized form
  of the third candidate (padded with four spaces), not the fourth candidate.
\<close>

theorem refine_exhausted_witness:
  "(0::int) < 3 \<and>
   failed_attempts (Some padding) (nat 3) (''RETURN 1'', rejecting ''Parser exception'') =
     Some (''RETURN 1      '',
           \<lparr>respond = (\<lambda>h q. Raised ''Parser exception''),
            calls = [''EXPLAIN RETURN 1'', ''EXPLAIN RETURN 1'', ''EXPLAIN RETURN 1'']\<rparr>) \<and>
   failed_attempts (Some padding) (nat 3 - 1) (''RETURN 1'', rejecting ''Parser exception'') =
     Some (''RETURN 1    '',
           \<lparr>respond = (\<lambda>h q. Raised ''Parser exception''),
            calls = [''EXPLAIN RETURN 1'', ''EXPLAIN RETURN 1'']\<rparr>) \<and>
   (\<exists>history.
      refine 3 ''RETURN 1'' (Some padding) (rejecting ''Parser exception'') =
        (Inr (''RETURN 1'', False, history),
         \<lparr>respond = (\<lambda>h q. Raised ''Parser exception''),
          calls = [''EXPLAIN RETURN 1'', ''EXPLAIN RETURN 1'', ''EXPLAIN RETURN 1'']\<rparr>) \<and>
      length history = 3)"
proof -
  have h: "(0::int) < 3" by simp
  have three: "failed_attempts (Some padding) (nat 3) (''RETURN 1'', rejecting ''Parser exception'') =
     Some (''RETURN 1      '',
           \<lparr>respond = (\<lambda>h q. Raised ''Parser exception''),
            calls = [''EXPLAIN RETURN 1'', ''EXPLAIN RETURN 1'', ''EXPLAIN RETURN 1'']\<rparr>)"
    by (simp add: eval_nat_numeral rejecting_def
        failed_attempt_padding [OF post_process_return_1]
        failed_attempt_padding [OF post_process_padded_2 [simplified]]
        failed_attempt_padding [OF post_process_padded_4 [simplified]])
  have two: "failed_attempts (Some padding) (nat 3 - 1) (''RETURN 1'', rejecting ''Parser exception'') =
     Some (''RETURN 1    '',
           \<lparr>respond = (\<lambda>h q. Raised ''Parser exception''),
            calls = [''EXPLAIN RETURN 1'', ''EXPLAIN RETURN 1'']\<rparr>)"
    by (simp add: eval_nat_numeral rejecting_def
        failed_attempt_padding [OF post_process_return_1]
        failed_attempt_padding [OF post_process_padded_2 [simplified]])
  from refine_exhausted [OF h three] obtain c conn1 p history where
    "failed_attempts (Some padding) (nat 3 - 1) (''RETURN 1'', rejecting ''Parser exception'') =
       Some (c, conn1)"
    "post_process c = Inr p"
    "refine 3 ''RETURN 1'' (Some padding) (rejecting ''Parser exception'') =
       (Inr (p, False, history),
        \<lparr>respond = (\<lambda>h q. Raised ''Parser exception''),
         calls = [''EXPLAIN RETURN 1'', ''EXPLAIN RETURN 1'', ''EXPLAIN RETURN 1'']\<rparr>)"
    "int (length history) = 3"
    by blast
  with two post_process_padded_4 have
    "refine 3 ''RETURN 1'' (Some padding) (rejecting ''Parser exception'') =
       (Inr (''RETURN 1'', False, history),
        \<lparr>respond = (\<lambda>h q. Raised ''Parser exception''),
         calls = [''EXPLAIN RETURN 1'', ''EXPLAIN RETURN 1'', ''EXPLAIN RETURN 1'']\<rparr>)"
    and "length history = 3"
    by (auto simp del: failed_attempts.simps)
  with h three two show ?thesis by blast
qed

text \<open>
  Claim C3.  The claim fails at its boundary.  With \<open>max_attempts = 0\<close> validation
  fails on every attempt, there being none, and the claim promises a triple with the
  flag false and an empty history; \<^verbatim>\<open>refine\<close> instead raises
  \<^verbatim>\<open>UnboundLocalError\<close>, for every query, repair function and connection, without
  a call to the connection.  And on a connection that rejects every query, a query
  whose \<^verbatim>\<open>RETURN\<close> clause has an empty item makes \<^verbatim>\<open>refine\<close> raise
  \<^verbatim>\<open>IndexError\<close> in the first iteration.
\<close>

theorem refine_exhausted_raises:
  "failed_attempts repair (nat 0) (query, conn) = Some (query, conn) \<and>
   refine 0 query repair conn = (Inl UnboundLocalError, conn) \<and>
   refine 3 ''MATCH (n) RETURN n.name, LIMIT 5'' repair (rejecting msg) =
     (Inl IndexError, rejecting msg)"
  by (simp add: refine_def post_process_empty_item upt_rec)

subsection \<open>The timing breakdown\<close>

lemma od_setitem_new: "k \<notin> set (map fst d) \<Longrightarrow> od_setitem k v d = d @ [(k, v)]"
  by (simp add: od_setitem_def od_contains_def)

lemma map_of_od_setitem: "map_of (od_setitem k v d) k = Some v"
proof (cases "k \<in> set (map fst d)")
  case True
  then have "map_of (map (\<lambda>kv. if fst kv = k then (k, v) else kv) d) k = Some v"
    by (induction d) auto
  with True show ?thesis by (simp add: od_setitem_def od_contains_def)
next
  case False
  then have "map_of d k = None" by (simp add: map_of_eq_None_iff)
  with False show ?thesis by (simp add: od_setitem_new map_add_Some_iff)
qed

lemma foldl_setitem_distinct:
  assumes "distinct (map fst xs)" and "set (map fst xs) \<inter> set (map fst acc) = {}"
  shows "foldl (\<lambda>breakdown (stage, elapsed). od_setitem stage (f elapsed) breakdown) acc xs =
         acc @ map (\<lambda>(stage, elapsed). (stage, f elapsed)) xs"
  using assms
proof (induction xs arbitrary: acc)
  case Nil
  then show ?case by simp
next
  case (Cons x xs)
  obtain stage elapsed where x: "x = (stage, elapsed)" by (cases x)
  from Cons.prems x have new: "stage \<notin> set (map fst acc)" by auto
  from Cons.prems x have "distinct (map fst xs)"
    and "set (map fst xs) \<inter> set (map fst (acc @ [(stage, f elapsed)])) = {}"
    by auto
  from Cons.IH [OF this] new x show ?case by (simp add: od_setitem_new)
qed

lemma sum_list_insort_key: "sum_list (map g (insort_key k x xs)) = g x + sum_list (map g xs)"
  for g :: "'a \<Rightarrow> real"
  by (induction xs) auto

lemma sum_list_sort_key: "sum_list (map g (sort_key k xs)) = sum_list (map g xs)"
  for g :: "'a \<Rightarrow> real"
  by (induction xs) (auto simp: sum_list_insort_key)

lemma sum_list_sorted_desc: "sum_list (map g (sorted_desc xs)) = sum_list (map g xs)"
  for g :: "string \<times> real \<Rightarrow> real"
proof -
  have "sum_list (map g (sorted_desc xs)) = sum_list (rev (map g (sort_key snd (rev xs))))"
    by (simp add: sorted_desc_def rev_map)
  also have "\<dots> = sum_list (map g (sort_key snd (rev xs)))"
    by (rule sum_list_rev)
  also have "\<dots> = sum_list (map g (rev xs))"
    by (rule sum_list_sort_key)
  also have "\<dots> = sum_list (rev (map g xs))"
    by (simp add: rev_map)
  also have "\<dots> = sum_list (map g xs)"
    by (rule sum_list_rev)
  finally show ?thesis .
qed

lemma set_sorted_desc: "set (sorted_desc xs) = set xs"
  by (simp add: sorted_desc_def)

lemma distinct_sorted_desc:
  assumes "distinct (map fst xs)"
  shows "distinct (map fst (sorted_desc xs))"
proof -
  from assms have "distinct xs" and "inj_on fst (set xs)"
    by (simp_all add: distinct_map)
  then have "distinct (sorted_desc xs)" and "inj_on fst (set (sorted_desc xs))"
    by (simp_all add: sorted_desc_def)
  then show ?thesis by (simp add: distinct_map)
qed

lemma sum_list_scaled:
  "sum_list (map (\<lambda>kv. snd kv / c * 100) xs) = sum_list (map snd xs) / c * 100"
  for c :: real
  by (induction xs) (auto simp: add_divide_distrib distrib_right)

lemma breakdown_shape:
  assumes ne: "current_run t \<noteq> []" and d: "distinct (map fst (current_run t))"
  shows "get_timing_breakdown t =
     od_setitem ''_total''
       \<lparr>time_seconds = sum_list (map snd (current_run t)),
        time_ms = sum_list (map snd (current_run t)) * 1000, percentage = 100\<rparr>
       (map (\<lambda>(stage, elapsed).
               (stage, \<lparr>time_seconds = elapsed, time_ms = elapsed * 1000,
                        percentage = (if sum_list (map snd (current_run t)) > 0
                                      then elapsed / sum_list (map snd (current_run t)) * 100
                                      else 0)\<rparr>))
          (sorted_desc (current_run t)))"
proof -
  let ?f = "\<lambda>elapsed. \<lparr>time_seconds = elapsed, time_ms = elapsed * 1000,
                        percentage = (if sum_list (map snd (current_run t)) > 0
                                      then elapsed / sum_list (map snd (current_run t)) * 100
                                      else 0)\<rparr>"
  have "foldl (\<lambda>breakdown (stage, elapsed). od_setitem stage (?f elapsed) breakdown) []
          (sorted_desc (current_run t)) =
        [] @ map (\<lambda>(stage, elapsed). (stage, ?f elapsed)) (sorted_desc (current_run t))"
    by (rule foldl_setitem_distinct [OF distinct_sorted_desc [OF d]]) simp
  with ne show ?thesis
    by (simp add: get_timing_breakdown_def Let_def)
qed

lemma percentage_sum_stages:
  assumes "''_total'' \<notin> set (map fst xs)"
  shows "percentage_sum
           (od_setitem ''_total'' tot (map (\<lambda>(stage, elapsed). (stage, f elapsed)) xs)) =
         sum_list (map (\<lambda>kv. percentage (f (snd kv))) xs)"
proof -
  let ?ys = "map (\<lambda>(stage, elapsed). (stage, f elapsed)) xs"
  have keys: "map fst ?ys = map fst xs"
    by (induction xs) auto
  have filt: "filter (\<lambda>kv. fst kv \<noteq> ''_total'') ?ys = ?ys"
    using assms by (induction xs) auto
  have sums: "sum_list (map (\<lambda>kv. percentage (snd kv)) ?ys) =
        sum_list (map (\<lambda>kv. percentage (f (snd kv))) xs)"
    by (induction xs) auto
  have "''_total'' \<notin> set (map fst ?ys)"
    unfolding keys by (rule assms)
  then have "od_setitem ''_total'' tot ?ys = ?ys @ [(''_total'', tot)]"
    by (rule od_setitem_new)
  then have "percentage_sum (od_setitem ''_total'' tot ?ys) =
      sum_list (map (\<lambda>kv. percentage (snd kv)) (filter (\<lambda>kv. fst kv \<noteq> ''_total'') ?ys))"
    by (simp add: percentage_sum_def del: map_map)
  also have "\<dots> = sum_list (map (\<lambda>kv. percentage (snd kv)) ?ys)"
    by (simp only: filt)
  finally show ?thesis
    by (simp only: sums)
qed

lemma breakdown_entries:
  assumes ne: "current_run t \<noteq> []" and d: "distinct (map fst (current_run t))"
    and nt: "''_total'' \<notin> set (map fst (current_run t))"
  shows "get_timing_breakdown t =
     map (\<lambda>(stage, elapsed).
            (stage, \<lparr>time_seconds = elapsed, time_ms = elapsed * 1000,
                     percentage = (if 0 < sum_list (map snd (current_run t))
                                   then elapsed / sum_list (map snd (current_run t)) * 100
                                   else 0)\<rparr>))
       (sorted_desc (current_run t)) @
     [(''_total'',
       \<lparr>time_seconds = sum_list (map snd (current_run t)),
        time_ms = sum_list (map snd (current_run t)) * 1000, percentage = 100\<rparr>)]"
proof -
  let ?ys = "map (\<lambda>(stage, elapsed).
            (stage, \<lparr>time_seconds = elapsed, time_ms = elapsed * 1000,
                     percentage = (if 0 < sum_list (map snd (current_run t))
                                   then elapsed / sum_list (map snd (current_run t)) * 100
                                   else 0)\<rparr>))
       (sorted_desc (current_run t))"
  have keys: "map fst ?ys = map fst (sorted_desc (current_run t))"
    by (induction "sorted_desc (current_run t)") auto
  from nt have "''_total'' \<notin> set (map fst (sorted_desc (current_run t)))"
    by (simp add: set_sorted_desc)
  then have "''_total'' \<notin> set (map fst ?ys)"
    unfolding keys .
  then show ?thesis
    unfolding breakdown_shape [OF ne d] by (rule od_setitem_new)
qed

lemma breakdown_lookup:
  assumes ne: "current_run t \<noteq> []" and d: "distinct (map fst (current_run t))"
    and nt: "''_total'' \<notin> set (map fst (current_run t))"
    and mem: "(stage, elapsed) \<in> set (current_run t)"
  shows "map_of (get_timing_breakdown t) stage =
     Some \<lparr>time_seconds = elapsed, time_ms = elapsed * 1000,
           percentage = (if 0 < sum_list (map snd (current_run t))
                         then elapsed / sum_list (map snd (current_run t)) * 100
                         else 0)\<rparr>"
proof -
  let ?m = "\<lambda>elapsed. \<lparr>time_seconds = elapsed, time_ms = elapsed * 1000,
                     percentage = (if 0 < sum_list (map snd (current_run t))
                                   then elapsed / sum_list (map snd (current_run t)) * 100
                                   else 0)\<rparr>"
  let ?ys = "map (\<lambda>(stage, elapsed). (stage, ?m elapsed)) (sorted_desc (current_run t))"
  let ?tot = "\<lparr>time_seconds = sum_list (map snd (current_run t)),
        time_ms = sum_list (map snd (current_run t)) * 1000, percentage = 100\<rparr>"
  have keys: "map fst ?ys = map fst (sorted_desc (current_run t))"
    by (induction "sorted_desc (current_run t)") auto
  from nt have nt': "''_total'' \<notin> set (map fst (sorted_desc (current_run t)))"
    by (simp add: set_sorted_desc)
  have "distinct (map fst (?ys @ [(''_total'', ?tot)]))"
    using distinct_sorted_desc [OF d] nt' by (simp add: keys del: map_map)
  moreover from mem have "(stage, elapsed) \<in> set (sorted_desc (current_run t))"
    by (simp add: set_sorted_desc)
  then have "(stage, ?m elapsed) \<in> set (?ys @ [(''_total'', ?tot)])"
    by force
  ultimately have "map_of (?ys @ [(''_total'', ?tot)]) stage = Some (?m elapsed)"
    by (rule map_of_is_SomeI)
  then show ?thesis
    by (simp only: breakdown_entries [OF ne d nt])
qed

lemma breakdown_percentage_sum:
  assumes ne: "current_run t \<noteq> []" and d: "distinct (map fst (current_run t))"
    and nt: "''_total'' \<notin> set (map fst (current_run t))"
  shows "percentage_sum (get_timing_breakdown t) =
     (if 0 < sum_list (map snd (current_run t)) then 100 else 0)"
proof -
  let ?total = "sum_list (map snd (current_run t))"
  from nt have nt': "''_total'' \<notin> set (map fst (sorted_desc (current_run t)))"
    by (simp add: set_sorted_desc)
  have total: "sum_list (map snd (sorted_desc (current_run t))) = ?total"
    by (rule sum_list_sorted_desc)
  show ?thesis
  proof (cases "0 < ?total")
    case True
    then have "percentage_sum (get_timing_breakdown t) =
        sum_list (map (\<lambda>kv. snd kv / ?total * 100) (sorted_desc (current_run t)))"
      by (simp add: breakdown_shape [OF ne d] percentage_sum_stages [OF nt'])
    also have "\<dots> = ?total / ?total * 100"
      by (simp only: sum_list_scaled total)
    finally show ?thesis using True by simp
  next
    case False
    then have "percentage_sum (get_timing_breakdown t) =
        sum_list (map (\<lambda>kv. 0) (sorted_desc (current_run t)))"
      by (simp add: breakdown_shape [OF ne d] percentage_sum_stages [OF nt'])
    with False show ?thesis by simp
  qed
qed

text \<open>
  Claim C9, as the code has it.  On an empty current run the breakdown is empty.  On a
  non-empty one the entry \<^verbatim>\<open>_total\<close> reports the sum of the elapsed times, with the
  percentage 100.  When the stage names are distinct (a dictionary) and none of them is
  \<^verbatim>\<open>_total\<close>, the breakdown holds one entry per stage, by descending time, then
  \<^verbatim>\<open>_total\<close>; the entry of a stage gives its time in seconds and milliseconds and
  its percentage, which is \<open>elapsed / total * 100\<close> when the total is positive and 0
  otherwise (the code divides only when \<^verbatim>\<open>total_time > 0\<close>); so the percentages of
  the stages sum to 100 when the total is positive and to 0 otherwise.
\<close>

theorem timing_breakdown:
  "(current_run t = [] \<longrightarrow> get_timing_breakdown t = []) \<and>
   (current_run t \<noteq> [] \<longrightarrow>
      map_of (get_timing_breakdown t) ''_total'' =
        Some \<lparr>time_seconds = sum_list (map snd (current_run t)),
              time_ms = sum_list (map snd (current_run t)) * 1000, percentage = 100\<rparr>) \<and>
   (current_run t \<noteq> [] \<and> distinct (map fst (current_run t)) \<and>
    ''_total'' \<notin> set (map fst (current_run t)) \<longrightarrow>
      get_timing_breakdown t =
        map (\<lambda>(stage, elapsed).
               (stage, \<lparr>time_seconds = elapsed, time_ms = elapsed * 1000,
                        percentage = (if 0 < sum_list (map snd (current_run t))
                                      then elapsed / sum_list (map snd (current_run t)) * 100
                                      else 0)\<rparr>))
          (sorted_desc (current_run t)) @
        [(''_total'',
          \<lparr>time_seconds = sum_list (map snd (current_run t)),
           time_ms = sum_list (map snd (current_run t)) * 1000, percentage = 100\<rparr>)] \<and>
      (\<forall>stage elapsed. (stage, elapsed) \<in> set (current_run t) \<longrightarrow>
         map_of (get_timing_breakdown t) stage =
           Some \<lparr>time_seconds = elapsed, time_ms = elapsed * 1000,
                 percentage = (if 0 < sum_list (map snd (current_run t))
                               then elapsed / sum_list (map snd (current_run t)) * 100
                               else 0)\<rparr>) \<and>
      percentage_sum (get_timing_breakdown t) =
        (if 0 < sum_list (map snd (current_run t)) then 100 else 0))"
proof (intro conjI impI allI)
  assume "current_run t = []"
  then show "get_timing_breakdown t = []"
    by (simp add: get_timing_breakdown_def)
next
  assume "current_run t \<noteq> []"
  then show "map_of (get_timing_breakdown t) ''_total'' =
        Some \<lparr>time_seconds = sum_list (map snd (current_run t)),
              time_ms = sum_list (map snd (current_run t)) * 1000, percentage = 100\<rparr>"
    by (simp add: get_timing_breakdown_def Let_def map_of_od_setitem)
next
  assume "current_run t \<noteq> [] \<and> distinct (map fst (current_run t)) \<and>
    ''_total'' \<notin> set (map fst (current_run t))"
  then show "get_timing_breakdown t =
        map (\<lambda>(stage, elapsed).
               (stage, \<lparr>time_seconds = elapsed, time_ms = elapsed * 1000,
                        percentage = (if 0 < sum_list (map snd (current_run t))
                                      then elapsed / sum_list (map snd (current_run t)) * 100
                                      else 0)\<rparr>))
          (sorted_desc (current_run t)) @
        [(''_total'',
          \<lparr>time_seconds = sum_list (map snd (current_run t)),
           time_ms = sum_list (map snd (current_run t)) * 1000, percentage = 100\<rparr>)]"
    by (intro breakdown_entries) simp_all
next
  fix stage elapsed
  assume "current_run t \<noteq> [] \<and> distinct (map fst (current_run t)) \<and>
    ''_total'' \<notin> set (map fst (current_run t))"
    and "(stage, elapsed) \<in> set (current_run t)"
  then show "map_of (get_timing_breakdown t) stage =
           Some \<lparr>time_seconds = elapsed, time_ms = elapsed * 1000,
                 percentage = (if 0 < sum_list (map snd (current_run t))
                               then elapsed / sum_list (map snd (current_run t)) * 100
                               else 0)\<rparr>"
    by (intro breakdown_lookup) simp_all
next
  assume "current_run t \<noteq> [] \<and> distinct (map fst (current_run t)) \<and>
    ''_total'' \<notin> set (map fst (current_run t))"
  then show "percentage_sum (get_timing_breakdown t) =
        (if 0 < sum_list (map snd (current_run t)) then 100 else 0)"
    by (intro breakdown_percentage_sum) simp_all
qed

text \<open>Stages of 1, 2 and 1 seconds: the percentages are 25, 50 and 25, they sum to 100,
  the stage of 2 seconds comes first and the total is 4.\<close>

theorem timing_breakdown_witness:
  "current_run \<lparr>timings = [], current_run = [(''a'', 1), (''b'', 2), (''c'', 1)], stage_stack = []\<rparr> \<noteq> [] \<and>
   distinct (map fst [(''a'', 1::real), (''b'', 2), (''c'', 1)]) \<and>
   ''_total'' \<notin> set (map fst [(''a'', 1::real), (''b'', 2), (''c'', 1)]) \<and>
   get_timing_breakdown
       \<lparr>timings = [], current_run = [(''a'', 1), (''b'', 2), (''c'', 1)], stage_stack = []\<rparr> =
     [(''b'', \<lparr>time_seconds = 2, time_ms = 2000, percentage = 50\<rparr>),
      (''a'', \<lparr>time_seconds = 1, time_ms = 1000, percentage = 25\<rparr>),
      (''c'', \<lparr>time_seconds = 1, time_ms = 1000, percentage = 25\<rparr>),
      (''_total'', \<lparr>time_seconds = 4, time_ms = 4000, percentage = 100\<rparr>)] \<and>
   map_of (get_timing_breakdown
       \<lparr>timings = [], current_run = [(''a'', 1), (''b'', 2), (''c'', 1)], stage_stack = []\<rparr>) ''_total'' =
     Some \<lparr>time_seconds = 4, time_ms = 4000, percentage = 100\<rparr> \<and>
   percentage_sum (get_timing_breakdown
       \<lparr>timings = [], current_run = [(''a'', 1), (''b'', 2), (''c'', 1)], stage_stack = []\<rparr>) = 100 \<and>
   get_timing_breakdown \<lparr>timings = [], current_run = [], stage_stack = []\<rparr> = []"
  using timing_breakdown [of "\<lparr>timings = [], current_run = [(''a'', 1), (''b'', 2), (''c'', 1)], stage_stack = []\<rparr>"]
    timing_breakdown [of "\<lparr>timings = [], current_run = [], stage_stack = []\<rparr>"]
  by (simp add: sorted_desc_def percentage_sum_def)

text \<open>
  The claim as stated fails when the elapsed times sum to zero: a single stage of zero
  seconds gets the percentage 0.  It also fails for a stage that is itself named
  \<^verbatim>\<open>_total\<close>, whose entry the synthetic one overwrites.
\<close>

theorem timing_breakdown_counterexample:
  "percentage_sum (get_timing_breakdown
      \<lparr>timings = [], current_run = [(''parse'', 0)], stage_stack = []\<rparr>) = 0 \<and>
   percentage_sum (get_timing_breakdown
      \<lparr>timings = [], current_run = [(''parse'', 0)], stage_stack = []\<rparr>) \<noteq> 100 \<and>
   percentage_sum (get_timing_breakdown
      \<lparr>timings = [], current_run = [(''_total'', 1), (''parse'', 1)], stage_stack = []\<rparr>) = 50 \<and>
   percentage_sum (get_timing_breakdown
      \<lparr>timings = [], current_run = [(''_total'', 1), (''parse'', 1)], stage_stack = []\<rparr>) \<noteq> 100"
  by (simp add: get_timing_breakdown_def percentage_sum_def sorted_desc_def od_setitem_def
      od_contains_def)

end
